theory Spec2Isabelle
  imports Complex_Main "HOL-Library.AList"
begin

section \<open>Text primitives of create\_statistics.py\<close>

text \<open>
  A log line is a \<^typ>\<open>string\<close>; each \<^typ>\<open>char\<close> stands for one code point below 256.
  In that range Python's \<^verbatim>\<open>\d\<close> matches the ten ASCII digits, \<^verbatim>\<open>\s\<close> and
  \<^verbatim>\<open>str.strip\<close> use the twelve characters of \<open>is_space\<close>, and \<^verbatim>\<open>.\<close> matches
  everything but the line feed.
\<close>

definition is_digit :: "char \<Rightarrow> bool" where
  "is_digit c = (c \<in> set ''0123456789'')"

definition is_space :: "char \<Rightarrow> bool" where
  "is_space c = (c \<in> set [CHR 0x09, CHR 0x0A, CHR 0x0B, CHR 0x0C, CHR 0x0D,
                           CHR 0x1C, CHR 0x1D, CHR 0x1E, CHR 0x1F, CHR 0x20,
                           CHR 0x85, CHR 0xA0])"

text \<open>A literal piece of a pattern: the rest of the text after it, if the text starts with it.\<close>

fun lit :: "string \<Rightarrow> string \<Rightarrow> string option" where
  "lit [] s = Some s"
| "lit (p # ps) [] = None"
| "lit (p # ps) (c # cs) = (if p = c then lit ps cs else None)"

text \<open>
  \<^verbatim>\<open>(\d+)\<close> and \<^verbatim>\<open>(\S+)\<close>: the group and the rest. Every such group of the four patterns
  is followed by a literal character outside its class (a space or a comma) or ends the
  pattern, so the longest run is the only length at which the whole pattern can match and
  the greedy choice needs no backtracking.
\<close>

definition digits1 :: "string \<Rightarrow> (string \<times> string) option" where
  "digits1 s = (let d = takeWhile is_digit s
                in if d = [] then None else Some (d, dropWhile is_digit s))"

definition nonspace1 :: "string \<Rightarrow> (string \<times> string) option" where
  "nonspace1 s = (let d = takeWhile (\<lambda>c. \<not> is_space c) s
                  in if d = [] then None else Some (d, dropWhile (\<lambda>c. \<not> is_space c) s))"

text \<open>\<^verbatim>\<open>.*\<close> followed by the continuation \<open>k\<close>: greedy, giving characters back one by one.\<close>

fun dot_star :: "(string \<Rightarrow> 'a option) \<Rightarrow> string \<Rightarrow> 'a option" where
  "dot_star k [] = k []"
| "dot_star k (c # cs) =
     (if c = CHR 0x0A then k (c # cs)
      else (case dot_star k cs of Some r \<Rightarrow> Some r | None \<Rightarrow> k (c # cs)))"

text \<open>\<^verbatim>\<open>pattern.search(line)\<close>: the match at the leftmost position that has one.\<close>

fun search :: "(string \<Rightarrow> 'a option) \<Rightarrow> string \<Rightarrow> 'a option" where
  "search m [] = m []"
| "search m (c # cs) = (case m (c # cs) of Some r \<Rightarrow> Some r | None \<Rightarrow> search m cs)"

text \<open>
  \<^verbatim>\<open>int(group)\<close> on a string of decimal digits. The interpreter's limit on the length
  of such a string is not modelled.
\<close>

definition py_int :: "string \<Rightarrow> int" where
  "py_int s = foldl (\<lambda>a c. 10 * a + (int (of_char c) - 48)) 0 s"

definition strip :: "string \<Rightarrow> string" where
  "strip s = rev (dropWhile is_space (rev (dropWhile is_space s)))"

definition endswith_star :: "string \<Rightarrow> bool" where
  "endswith_star s = (s \<noteq> [] \<and> last s = CHR ''*'')"

subsection \<open>The four patterns\<close>

definition epoch_pat :: "string \<Rightarrow> unit option" where
  "epoch_pat s =
     Option.bind (lit ''['' s)
       (dot_star (\<lambda>r. map_option (\<lambda>_. ())
          (lit ''] Entering simulation epoch with consensus from'' r)))"

definition relay_stats_pat :: "string \<Rightarrow> (string \<times> string \<times> string) option" where
  "relay_stats_pat s =
     Option.bind (lit ''Total relays in consensus: '' s) (\<lambda>r1.
     Option.bind (digits1 r1) (\<lambda>(g1, r2).
     Option.bind (lit '', Valid/Running Guards: '' r2) (\<lambda>r3.
     Option.bind (digits1 r3) (\<lambda>(g2, r4).
     Option.bind (lit '', Valid/Running Exits: '' r4) (\<lambda>r5.
     Option.bind (digits1 r5) (\<lambda>(g3, r6). Some (g1, g2, g3)))))))"

definition adv_stats_pat :: "string \<Rightarrow> (string \<times> string) option" where
  "adv_stats_pat s =
     Option.bind (lit ''Total adversary guard relays: '' s) (\<lambda>r1.
     Option.bind (digits1 r1) (\<lambda>(g1, r2).
     Option.bind (lit '', Total adversary exit relays: '' r2) (\<lambda>r3.
     Option.bind (digits1 r3) (\<lambda>(g2, r4). Some (g1, g2)))))"

definition circuit_pat :: "string \<Rightarrow> (string \<times> string \<times> string \<times> string) option" where
  "circuit_pat s =
     Option.bind (lit ''Client '' s) (\<lambda>r1.
     Option.bind (digits1 r1) (\<lambda>(g1, r2).
     Option.bind (lit '' uses the following circuit for a stream request: '' r2) (\<lambda>r3.
     Option.bind (nonspace1 r3) (\<lambda>(g2, r4).
     Option.bind (lit '' '' r4) (\<lambda>r5.
     Option.bind (nonspace1 r5) (\<lambda>(g3, r6).
     Option.bind (lit '' '' r6) (\<lambda>r7.
     Option.bind (nonspace1 r7) (\<lambda>(g4, r8). Some (g1, g2, g3, g4)))))))))"

section \<open>The analyzer\<close>

text \<open>The dictionary \<^verbatim>\<open>relay_stats\<close> has five fixed keys.\<close>

record snapshot =
  total_relays :: int
  total_guards :: int
  total_exits :: int
  adv_guards :: int
  adv_exits :: int

text \<open>A compromise type is the tuple \<^verbatim>\<open>(g_comp, m_comp, e_comp)\<close>; a circuit id the three tokens.\<close>

type_synonym comp_type = "bool \<times> bool \<times> bool"

type_synonym circuit_id = "string \<times> string \<times> string"

text \<open>
  A Python dict keeps its keys in insertion order: an association list with distinct keys,
  written with \<^const>\<open>AList.update\<close>. The two \<^verbatim>\<open>defaultdict\<close>s read a missing key as
  \<open>0\<close> and as the empty set.
\<close>

definition dict_get :: "('k \<times> 'v) list \<Rightarrow> 'k \<Rightarrow> 'v \<Rightarrow> 'v" where
  "dict_get d k dflt = (case map_of d k of None \<Rightarrow> dflt | Some v \<Rightarrow> v)"

definition dd_int :: "('k \<times> int) list \<Rightarrow> 'k \<Rightarrow> int" where
  "dd_int d k = (case map_of d k of None \<Rightarrow> 0 | Some v \<Rightarrow> v)"

definition dd_set :: "('k \<times> 'v set) list \<Rightarrow> 'k \<Rightarrow> 'v set" where
  "dd_set d k = (case map_of d k of None \<Rightarrow> {} | Some v \<Rightarrow> v)"

definition dd_incr :: "'k \<Rightarrow> ('k \<times> int) list \<Rightarrow> ('k \<times> int) list" where
  "dd_incr k d = AList.update k (dd_int d k + 1) d"

definition dd_add :: "'k \<Rightarrow> 'v \<Rightarrow> ('k \<times> 'v set) list \<Rightarrow> ('k \<times> 'v set) list" where
  "dd_add k v d = AList.update k (insert v (dd_set d k)) d"

text \<open>The local variables of \<^verbatim>\<open>analyze_torfs_output\<close> that the loop over the lines updates.\<close>

record state =
  all_circuits :: "circuit_id set"
  circuits_compromised :: "(comp_type \<times> int) list"
  exposures :: "(int \<times> comp_type set) list"
  epochs :: "snapshot list"
  current_epoch :: "string option"
  relay_stats :: snapshot

definition init_state :: state where
  "init_state = \<lparr> all_circuits = {}, circuits_compromised = [], exposures = [],
                   epochs = [], current_epoch = None,
                   relay_stats = \<lparr> total_relays = 0, total_guards = 0, total_exits = 0,
                                   adv_guards = 0, adv_exits = 0 \<rparr> \<rparr>"

text \<open>Truth value of \<^verbatim>\<open>current_epoch\<close>: neither \<^verbatim>\<open>None\<close> nor the empty string.\<close>

definition truthy :: "string option \<Rightarrow> bool" where
  "truthy e = (case e of None \<Rightarrow> False | Some s \<Rightarrow> s \<noteq> [])"

definition is_epoch :: "string \<Rightarrow> bool" where
  "is_epoch line = (search epoch_pat line \<noteq> None)"

definition on_epoch :: "string \<Rightarrow> state \<Rightarrow> state" where
  "on_epoch line s =
     s\<lparr> epochs := (if truthy (current_epoch s) then epochs s @ [relay_stats s] else epochs s),
        current_epoch := Some (strip line) \<rparr>"

definition on_relay_stats :: "string \<times> string \<times> string \<Rightarrow> state \<Rightarrow> state" where
  "on_relay_stats g s =
     (case g of (g1, g2, g3) \<Rightarrow>
        s\<lparr> relay_stats := (relay_stats s)\<lparr> total_relays := py_int g1,
                                           total_guards := py_int g2,
                                           total_exits := py_int g3 \<rparr> \<rparr>)"

definition on_adv_stats :: "string \<times> string \<Rightarrow> state \<Rightarrow> state" where
  "on_adv_stats g s =
     (case g of (g1, g2) \<Rightarrow>
        s\<lparr> relay_stats := (relay_stats s)\<lparr> adv_guards := py_int g1,
                                           adv_exits := py_int g2 \<rparr> \<rparr>)"

definition on_circuit :: "string \<times> string \<times> string \<times> string \<Rightarrow> state \<Rightarrow> state" where
  "on_circuit g s =
     (case g of (g1, guard, middle, exit_relay) \<Rightarrow>
        let client_id = py_int g1;
            g_comp = endswith_star guard;
            m_comp = endswith_star middle;
            e_comp = endswith_star exit_relay;
            is_compromised = (g_comp \<or> m_comp \<or> e_comp);
            circuit_id = (guard, middle, exit_relay);
            s1 = (if is_compromised \<and> circuit_id \<notin> all_circuits s
                  then s\<lparr> circuits_compromised :=
                            dd_incr (g_comp, m_comp, e_comp) (circuits_compromised s),
                          exposures :=
                            dd_add client_id (g_comp, m_comp, e_comp) (exposures s) \<rparr>
                  else s)
        in s1\<lparr> all_circuits := insert circuit_id (all_circuits s1) \<rparr>)"

text \<open>One round of the loop: the first pattern that matches decides, then \<^verbatim>\<open>continue\<close>.\<close>

definition process_line :: "state \<Rightarrow> string \<Rightarrow> state" where
  "process_line s line =
     (if is_epoch line then on_epoch line s
      else case search relay_stats_pat line of
        Some g \<Rightarrow> on_relay_stats g s
      | None \<Rightarrow>
          (case search adv_stats_pat line of
             Some g \<Rightarrow> on_adv_stats g s
           | None \<Rightarrow>
               (case search circuit_pat line of
                  Some g \<Rightarrow> on_circuit g s
                | None \<Rightarrow> s)))"

definition scan :: "string list \<Rightarrow> state" where
  "scan ls = foldl process_line init_state ls"

text \<open>After the loop: the snapshot of the epoch still open.\<close>

definition final_epochs :: "state \<Rightarrow> snapshot list" where
  "final_epochs s = (if truthy (current_epoch s) then epochs s @ [relay_stats s] else epochs s)"

text \<open>
  \<^verbatim>\<open>for exposures in client_exposures.values(): for comp_type in exposures: ...\<close>
  walks each set in an order Python does not specify; \<open>iter\<close> is that order.
\<close>

definition count_clients ::
  "(comp_type set \<Rightarrow> comp_type list) \<Rightarrow> (int \<times> comp_type set) list \<Rightarrow> (comp_type \<times> int) list" where
  "count_clients iter ce =
     fold (\<lambda>exps cc. fold dd_incr (iter exps) cc) (map snd ce) []"

definition py_max :: "int list \<Rightarrow> int" where
  "py_max xs = fold max (tl xs) (hd xs)"

record results =
  total_circuits :: int
  compromised_circuits :: int
  circuit_counts :: "(comp_type \<times> int) list"
  total_clients :: int
  compromised_clients :: int
  client_counts :: "(comp_type \<times> int) list"
  client_exposures :: "(int \<times> comp_type set) list"
  epoch_data :: "snapshot list"

definition make_results :: "(comp_type set \<Rightarrow> comp_type list) \<Rightarrow> state \<Rightarrow> results" where
  "make_results iter s =
     \<lparr> total_circuits = int (card (all_circuits s)),
       compromised_circuits = sum_list (map snd (circuits_compromised s)),
       circuit_counts = circuits_compromised s,
       total_clients = (if exposures s \<noteq> [] then py_max (map fst (exposures s)) + 1 else 0),
       compromised_clients = int (length (exposures s)),
       client_counts = count_clients iter (exposures s),
       client_exposures = exposures s,
       epoch_data = final_epochs s \<rparr>"

text \<open>The argument is the sequence of lines of the input file.\<close>

definition analyze_torfs_output ::
  "(comp_type set \<Rightarrow> comp_type list) \<Rightarrow> string list \<Rightarrow> results" where
  "analyze_torfs_output iter ls = make_results iter (scan ls)"

section \<open>The report\<close>

text \<open>
  Python's \<^verbatim>\<open>/\<close> raises \<^verbatim>\<open>ZeroDivisionError\<close> on a zero divisor, for integers and for
  floats. The quotient is kept as the exact rational number where Python has the nearest
  double, and the three float formats of the f-strings stay symbolic.
\<close>

datatype py_error = ZeroDivisionError

definition truediv :: "rat \<Rightarrow> rat \<Rightarrow> py_error + rat" where
  "truediv a b = (if b = 0 then Inl ZeroDivisionError else Inr (a / b))"

definition bind_err :: "py_error + 'a \<Rightarrow> ('a \<Rightarrow> py_error + 'b) \<Rightarrow> py_error + 'b" where
  "bind_err x f = (case x of Inl e \<Rightarrow> Inl e | Inr v \<Rightarrow> f v)"

datatype piece =
  Str string
| Pct2 rat   \<comment> \<open>\<^verbatim>\<open>{x:.2%}\<close>\<close>
| Pct1 rat   \<comment> \<open>\<^verbatim>\<open>{x:.1%}\<close>\<close>
| Fix1 rat   \<comment> \<open>\<^verbatim>\<open>{x:.1f}\<close>\<close>

type_synonym line = "piece list"

function digits_of :: "nat \<Rightarrow> string" where
  "digits_of n = (if n < 10 then [char_of (48 + n)]
                  else digits_of (n div 10) @ [char_of (48 + n mod 10)])"
  by pat_completeness auto
termination
  by (relation "measure id") auto

declare digits_of.simps [simp del]

definition py_str :: "int \<Rightarrow> string" where
  "py_str i = (if i < 0 then CHR ''-'' # digits_of (nat (- i)) else digits_of (nat i))"

fun py_join :: "'a list \<Rightarrow> 'a list list \<Rightarrow> 'a list" where
  "py_join sep [] = []"
| "py_join sep [x] = x"
| "py_join sep (x # y # ys) = x @ sep @ py_join sep (y # ys)"

definition all_combinations :: "comp_type list" where
  "all_combinations =
     [(True, False, False), (False, True, False), (False, False, True),
      (True, True, False), (True, False, True), (False, True, True),
      (True, True, True)]"

definition describe_compromise :: "comp_type \<Rightarrow> string" where
  "describe_compromise c =
     (case c of (g, m, e) \<Rightarrow>
        let parts = (if g then [''guard''] else []) @ (if m then [''middle''] else [])
                    @ (if e then [''exit''] else [])
        in if parts \<noteq> [] then py_join ''+'' parts else ''none'')"

text \<open>
  The two loops over \<^verbatim>\<open>all_combinations\<close>: one line for each combination with a positive
  count, with the count's share of \<open>denom\<close>.
\<close>

fun breakdown :: "string \<Rightarrow> int \<Rightarrow> (comp_type \<times> int) list \<Rightarrow> comp_type list
                  \<Rightarrow> py_error + line list" where
  "breakdown what denom counts [] = Inr []"
| "breakdown what denom counts (combo # rest) =
     (let count = dict_get counts combo 0
      in if count > 0
         then bind_err (truediv (of_int count) (of_int denom)) (\<lambda>q.
              bind_err (breakdown what denom counts rest) (\<lambda>ls.
              Inr ([Str '' - '', Str (describe_compromise combo), Str '': '',
                    Str (py_str count), Str what, Pct2 q, Str '')''] # ls)))
         else breakdown what denom counts rest)"

definition circuit_section :: "results \<Rightarrow> py_error + line list" where
  "circuit_section r =
     bind_err (truediv (of_int (compromised_circuits r)) (of_int (total_circuits r))) (\<lambda>q.
     let out = [[Str ''CIRCUIT STATISTICS''], [Str ''==================''],
                [Str ''Total unique circuits: '', Str (py_str (total_circuits r))],
                [Str ''Compromised circuits: '', Str (py_str (compromised_circuits r)),
                 Str '' ('', Pct2 q, Str '')'']]
     in if compromised_circuits r > 0
        then bind_err (breakdown '' circuits ('' (compromised_circuits r)
                         (circuit_counts r) all_combinations) (\<lambda>ls.
             Inr (out @ [[Str (CHR 0x0A # ''COMPROMISED CIRCUIT BREAKDOWN:'')]] @ ls))
        else Inr out)"

definition client_section :: "results \<Rightarrow> py_error + line list" where
  "client_section r =
     bind_err (truediv (of_int (compromised_clients r)) (of_int (total_clients r))) (\<lambda>q.
     let out = [[Str (CHR 0x0A # ''CLIENT STATISTICS'')], [Str ''================''],
                [Str ''Total clients: '', Str (py_str (total_clients r))],
                [Str ''Clients using compromised circuits: '',
                 Str (py_str (compromised_clients r)), Str '' ('', Pct2 q, Str '')'']]
     in if compromised_clients r > 0
        then bind_err (breakdown '' clients ('' (total_clients r)
                         (client_counts r) all_combinations) (\<lambda>ls.
             let out2 = out @ [[Str (CHR 0x0A # ''COMPROMISE TYPES USED BY CLIENTS:'')]] @ ls;
                 multi_exposure =
                   int (length (filter (\<lambda>exp. card exp > 1) (map snd (client_exposures r))))
             in if multi_exposure > 0
                then bind_err (truediv (of_int multi_exposure)
                                 (of_int (compromised_clients r))) (\<lambda>q2.
                     Inr (out2 @ [[Str (CHR 0x0A # ''Clients with multiple exposure types: ''),
                                   Str (py_str multi_exposure), Str '' ('', Pct2 q2,
                                   Str '')'']]))
                else Inr out2)
        else Inr out)"

definition relay_section :: "results \<Rightarrow> py_error + line list" where
  "relay_section r =
     (if epoch_data r \<noteq> [] then
        let num_epochs = int (length (epoch_data r)) in
        bind_err (truediv (of_int (sum_list (map total_relays (epoch_data r))))
                    (of_int num_epochs)) (\<lambda>avg_total.
        bind_err (truediv (of_int (sum_list (map total_guards (epoch_data r))))
                    (of_int num_epochs)) (\<lambda>avg_guards.
        bind_err (truediv (of_int (sum_list (map total_exits (epoch_data r))))
                    (of_int num_epochs)) (\<lambda>avg_exits.
        bind_err (truediv (of_int (sum_list (map adv_guards (epoch_data r))))
                    (of_int num_epochs)) (\<lambda>avg_adv_guards.
        bind_err (truediv (of_int (sum_list (map adv_exits (epoch_data r))))
                    (of_int num_epochs)) (\<lambda>avg_adv_exits.
        bind_err (truediv avg_guards avg_total) (\<lambda>q1.
        bind_err (truediv avg_exits avg_total) (\<lambda>q2.
        bind_err (truediv avg_adv_guards avg_guards) (\<lambda>q3.
        bind_err (truediv avg_adv_exits avg_exits) (\<lambda>q4.
        Inr [[Str (CHR 0x0A # ''RELAY STATISTICS'')], [Str ''================''],
             [Str ''Number of epochs (started hours): '', Str (py_str num_epochs)],
             [Str (CHR 0x0A # ''Average across all epochs:'')],
             [Str '' - Total relays: '', Fix1 avg_total],
             [Str '' - Guard relays: '', Fix1 avg_guards, Str '' ('', Pct1 q1,
              Str '' of total)''],
             [Str '' - Exit relays: '', Fix1 avg_exits, Str '' ('', Pct1 q2,
              Str '' of total)''],
             [Str '' - Adversary guards: '', Fix1 avg_adv_guards, Str '' ('', Pct1 q3,
              Str '' of guards)''],
             [Str '' - Adversary exits: '', Fix1 avg_adv_exits, Str '' ('', Pct1 q4,
              Str '' of exits)'']])))))))))
      else Inr [])"

text \<open>
  The report that \<^verbatim>\<open>generate_report\<close> returns, the lines joined by line feeds. Writing
  it to the output file is not modelled.
\<close>

definition generate_report :: "results \<Rightarrow> py_error + line" where
  "generate_report r =
     bind_err (circuit_section r) (\<lambda>a.
     bind_err (client_section r) (\<lambda>b.
     bind_err (relay_section r) (\<lambda>c.
     Inr (py_join [Str [CHR 0x0A]] (a @ b @ c)))))"

section \<open>The log as a sequence of events\<close>

text \<open>
  The kind of a line, by the priority order of the loop body, and the notions the
  properties below are stated with: the circuit uses of a log, the compromise type of a
  circuit id, and the uses whose circuit id no earlier use has.
\<close>

datatype event =
  Epoch_marker
| Relay_count "string \<times> string \<times> string"
| Adv_count "string \<times> string"
| Circuit_usage "string \<times> string \<times> string \<times> string"
| Ignored

definition classify :: "string \<Rightarrow> event" where
  "classify line =
     (if is_epoch line then Epoch_marker
      else case search relay_stats_pat line of
        Some g \<Rightarrow> Relay_count g
      | None \<Rightarrow>
          (case search adv_stats_pat line of
             Some g \<Rightarrow> Adv_count g
           | None \<Rightarrow>
               (case search circuit_pat line of
                  Some g \<Rightarrow> Circuit_usage g
                | None \<Rightarrow> Ignored)))"

definition comp_of :: "circuit_id \<Rightarrow> comp_type" where
  "comp_of c = (case c of (guard, middle, exit_relay) \<Rightarrow>
                  (endswith_star guard, endswith_star middle, endswith_star exit_relay))"

definition compromised_id :: "circuit_id \<Rightarrow> bool" where
  "compromised_id c = (comp_of c \<noteq> (False, False, False))"

definition uses_of :: "string \<Rightarrow> (int \<times> circuit_id) list" where
  "uses_of line = (case classify line of
                     Circuit_usage (g1, guard, middle, exit_relay) \<Rightarrow>
                       [(py_int g1, (guard, middle, exit_relay))]
                   | _ \<Rightarrow> [])"

definition circuit_uses :: "string list \<Rightarrow> (int \<times> circuit_id) list" where
  "circuit_uses ls = concat (map uses_of ls)"

definition first_seen :: "(int \<times> circuit_id) list \<Rightarrow> (int \<times> circuit_id) list" where
  "first_seen us =
     map (\<lambda>i. us ! i) (filter (\<lambda>i. snd (us ! i) \<notin> snd ` set (take i us)) [0..<length us])"

definition first_seen_compromised :: "string list \<Rightarrow> (int \<times> circuit_id) list" where
  "first_seen_compromised ls = filter (\<lambda>u. compromised_id (snd u)) (first_seen (circuit_uses ls))"

definition count_line :: "string \<Rightarrow> bool" where
  "count_line l = (case classify l of Relay_count g \<Rightarrow> True | Adv_count g \<Rightarrow> True | _ \<Rightarrow> False)"

definition zero_snapshot :: snapshot where
  "zero_snapshot = \<lparr> total_relays = 0, total_guards = 0, total_exits = 0,
                      adv_guards = 0, adv_exits = 0 \<rparr>"

section \<open>Orders for walking a set\<close>

text \<open>An order in which a set can be walked: every element, once.\<close>

definition valid_iter :: "(comp_type set \<Rightarrow> comp_type list) \<Rightarrow> bool" where
  "valid_iter it = (\<forall>S. set (it S) = S \<and> distinct (it S))"

text \<open>One admissible order for walking a set of compromise types: the report's own order.\<close>

definition iter_listed :: "comp_type set \<Rightarrow> comp_type list" where
  "iter_listed S = filter (\<lambda>v. v \<in> S) (all_combinations @ [(False, False, False)])"

definition iter_reversed :: "comp_type set \<Rightarrow> comp_type list" where
  "iter_reversed S = rev (iter_listed S)"

text \<open>
  What one round of the outer loop of \<open>count_clients\<close> does to the dictionary, whatever
  the order: every compromise type of the set counts one client more.
\<close>

definition bump :: "comp_type set \<Rightarrow> (comp_type \<rightharpoonup> int) \<Rightarrow> (comp_type \<rightharpoonup> int)" where
  "bump S m = (\<lambda>v. if v \<in> S then Some ((case m v of None \<Rightarrow> 0 | Some n \<Rightarrow> n) + 1) else m v)"

section \<open>Sample log lines\<close>

definition line_g1 :: string where
  "line_g1 = ''Client 3 uses the following circuit for a stream request: G1* M1 X1''"

definition line_clean9 :: string where
  "line_clean9 = ''Client 9 uses the following circuit for a stream request: G2 M2 X2''"

definition line_mx2 :: string where
  "line_mx2 = ''Client 3 uses the following circuit for a stream request: G2 M2* X2*''"

definition line_epoch_a :: string where
  "line_epoch_a = ''[00:00] Entering simulation epoch with consensus from A''"

definition line_epoch_b :: string where
  "line_epoch_b = ''[01:00] Entering simulation epoch with consensus from B''"

definition line_relays :: string where
  "line_relays =
     ''Total relays in consensus: 100, Valid/Running Guards: 20, Valid/Running Exits: 10''"

definition line_adv :: string where
  "line_adv = ''Total adversary guard relays: 2, Total adversary exit relays: 1''"

section \<open>Properties of the matchers\<close>

lemma lit_Some_iff: "lit p s = Some r \<longleftrightarrow> s = p @ r"
  by (induction p s rule: lit.induct) auto

lemma search_Some_suffix: "search m s = Some r \<Longrightarrow> \<exists>a b. s = a @ b \<and> m b = Some r"
proof (induction s)
  case Nil
  then show ?case by simp
next
  case (Cons c cs)
  show ?case
  proof (cases "m (c # cs)")
    case None
    with Cons obtain a b where "cs = a @ b" "m b = Some r" by auto
    then have "c # cs = (c # a) @ b \<and> m b = Some r" by simp
    then show ?thesis by blast
  next
    case (Some x)
    with Cons.prems have "c # cs = [] @ (c # cs) \<and> m (c # cs) = Some r" by simp
    then show ?thesis by blast
  qed
qed

lemma search_None_iff: "search m s = None \<longleftrightarrow> (\<forall>a b. s = a @ b \<longrightarrow> m b = None)"
proof (induction s)
  case Nil
  then show ?case by simp
next
  case (Cons c cs)
  show ?case
  proof
    assume h: "search m (c # cs) = None"
    then have m0: "m (c # cs) = None" and s0: "search m cs = None"
      by (auto split: option.splits)
    show "\<forall>a b. c # cs = a @ b \<longrightarrow> m b = None"
    proof (intro allI impI)
      fix a b assume e: "c # cs = a @ b"
      show "m b = None"
      proof (cases a)
        case Nil
        with e m0 show ?thesis by simp
      next
        case (Cons a0 as)
        with e have "cs = as @ b" by simp
        with s0 Cons.IH show ?thesis by blast
      qed
    qed
  next
    assume h: "\<forall>a b. c # cs = a @ b \<longrightarrow> m b = None"
    then have "m (c # cs) = None" by (metis append_Nil)
    moreover have "\<forall>a b. cs = a @ b \<longrightarrow> m b = None"
      using h by (metis append_Cons)
    ultimately show "search m (c # cs) = None" using Cons.IH by simp
  qed
qed

lemma dot_star_Some: "dot_star k s = Some r \<Longrightarrow> \<exists>a b. s = a @ b \<and> CHR 0x0A \<notin> set a \<and> k b = Some r"
proof (induction s)
  case Nil
  then show ?case by simp
next
  case (Cons c cs)
  show ?case
  proof (cases "c \<noteq> CHR 0x0A \<and> dot_star k cs \<noteq> None")
    case True
    with Cons.prems have "dot_star k cs = Some r" by (auto split: option.splits)
    with Cons.IH obtain a b where "cs = a @ b" "CHR 0x0A \<notin> set a" "k b = Some r" by blast
    with True have "c # cs = (c # a) @ b \<and> CHR 0x0A \<notin> set (c # a) \<and> k b = Some r" by auto
    then show ?thesis by blast
  next
    case False
    with Cons.prems have "k (c # cs) = Some r" by (auto split: option.splits if_splits)
    then have "c # cs = [] @ (c # cs) \<and> CHR 0x0A \<notin> set [] \<and> k (c # cs) = Some r" by simp
    then show ?thesis by blast
  qed
qed

lemma dot_star_None: "dot_star k (a @ b) = None \<Longrightarrow> CHR 0x0A \<notin> set a \<Longrightarrow> k b = None"
proof (induction a)
  case Nil
  then show ?case by (cases b) (auto split: option.splits if_splits)
next
  case (Cons c a)
  then show ?case by (auto split: option.splits if_splits)
qed

lemma bracket_search_iff:
  "search (\<lambda>s. Option.bind (lit p s) (dot_star (\<lambda>r. map_option (\<lambda>_. ()) (lit q r)))) line \<noteq> None
   \<longleftrightarrow> (\<exists>a m b. line = a @ p @ m @ q @ b \<and> CHR 0x0A \<notin> set m)"
  (is "?L \<longleftrightarrow> ?R")
proof
  let ?k = "\<lambda>r. map_option (\<lambda>_. ()) (lit q r)"
  let ?pat = "\<lambda>s. Option.bind (lit p s) (dot_star ?k)"
  assume ?L
  then obtain u where "search ?pat line = Some u" by blast
  then obtain a b where ab: "line = a @ b" "?pat b = Some u"
    using search_Some_suffix [of ?pat line u] by blast
  from ab(2) obtain r where r: "lit p b = Some r" and d: "dot_star ?k r = Some u"
    by (auto simp: Option.bind_eq_Some_conv)
  from d obtain m t where mt: "r = m @ t" "CHR 0x0A \<notin> set m" "?k t = Some u"
    using dot_star_Some [of ?k r u] by blast
  from mt(3) obtain z where "lit q t = Some z" by auto
  then have "t = q @ z" by (simp only: lit_Some_iff)
  moreover from r have "b = p @ r" by (simp only: lit_Some_iff)
  ultimately have "line = a @ p @ m @ q @ z" using ab(1) mt(1) by simp
  with mt(2) show ?R by blast
next
  let ?k = "\<lambda>r. map_option (\<lambda>_. ()) (lit q r)"
  let ?pat = "\<lambda>s. Option.bind (lit p s) (dot_star ?k)"
  assume ?R
  then obtain a m b where l: "line = a @ (p @ m @ q @ b)" and nl: "CHR 0x0A \<notin> set m"
    by auto
  show ?L
  proof
    assume "search ?pat line = None"
    with l have "?pat (p @ m @ q @ b) = None"
      using search_None_iff [of ?pat line] by blast
    moreover have "lit p (p @ m @ q @ b) = Some (m @ q @ b)"
      by (simp only: lit_Some_iff)
    ultimately have "dot_star ?k (m @ (q @ b)) = None" by simp
    then have "?k (q @ b) = None" using nl by (rule dot_star_None)
    moreover have "lit q (q @ b) = Some b" by (simp only: lit_Some_iff)
    ultimately show False by simp
  qed
qed

lemma is_epoch_iff:
  "is_epoch line \<longleftrightarrow>
     (\<exists>a m b. line = a @ ''['' @ m @ ''] Entering simulation epoch with consensus from'' @ b
              \<and> CHR 0x0A \<notin> set m)"
  unfolding is_epoch_def epoch_pat_def by (rule bracket_search_iff)

lemma digits1_sound:
  "digits1 s = Some (d, r) \<Longrightarrow> d \<noteq> [] \<and> (\<forall>c\<in>set d. is_digit c) \<and> s = d @ r"
  by (auto simp: digits1_def Let_def split: if_splits dest: set_takeWhileD)

lemma nonspace1_sound:
  "nonspace1 s = Some (d, r) \<Longrightarrow> d \<noteq> [] \<and> (\<forall>c\<in>set d. \<not> is_space c) \<and> s = d @ r"
  by (auto simp: nonspace1_def Let_def split: if_splits dest: set_takeWhileD)

lemma relay_stats_pat_groups:
  assumes "search relay_stats_pat line = Some (g1, g2, g3)"
  shows "\<exists>a b. line = a @ ''Total relays in consensus: '' @ g1 @ '', Valid/Running Guards: ''
                    @ g2 @ '', Valid/Running Exits: '' @ g3 @ b
     \<and> g1 \<noteq> [] \<and> g2 \<noteq> [] \<and> g3 \<noteq> []
     \<and> (\<forall>c\<in>set (g1 @ g2 @ g3). is_digit c)"
proof -
  obtain a t where at: "line = a @ t" "relay_stats_pat t = Some (g1, g2, g3)"
    using search_Some_suffix [OF assms] by blast
  from at(2) obtain r1 r2 r3 r4 r5 r6 where
    l1: "lit ''Total relays in consensus: '' t = Some r1" and d1: "digits1 r1 = Some (g1, r2)" and
    l2: "lit '', Valid/Running Guards: '' r2 = Some r3" and d2: "digits1 r3 = Some (g2, r4)" and
    l3: "lit '', Valid/Running Exits: '' r4 = Some r5" and d3: "digits1 r5 = Some (g3, r6)"
    unfolding relay_stats_pat_def by (auto simp: Option.bind_eq_Some_conv)
  from l1 l2 l3 have "t = ''Total relays in consensus: '' @ r1"
    "r2 = '', Valid/Running Guards: '' @ r3" "r4 = '', Valid/Running Exits: '' @ r5"
    by (simp_all only: lit_Some_iff)
  moreover from d1 d2 d3 have "r1 = g1 @ r2" "r3 = g2 @ r4" "r5 = g3 @ r6"
    and "g1 \<noteq> []" "g2 \<noteq> []" "g3 \<noteq> []"
    and "\<forall>c\<in>set g1. is_digit c" "\<forall>c\<in>set g2. is_digit c" "\<forall>c\<in>set g3. is_digit c"
    by (auto dest: digits1_sound)
  ultimately have "line = a @ ''Total relays in consensus: '' @ g1 @ '', Valid/Running Guards: ''
                    @ g2 @ '', Valid/Running Exits: '' @ g3 @ r6
     \<and> g1 \<noteq> [] \<and> g2 \<noteq> [] \<and> g3 \<noteq> []
     \<and> (\<forall>c\<in>set (g1 @ g2 @ g3). is_digit c)"
    using at(1) by (simp only: append_assoc set_append) blast
  then show ?thesis by blast
qed

lemma adv_stats_pat_groups:
  assumes "search adv_stats_pat line = Some (g1, g2)"
  shows "\<exists>a b. line = a @ ''Total adversary guard relays: '' @ g1
                    @ '', Total adversary exit relays: '' @ g2 @ b
     \<and> g1 \<noteq> [] \<and> g2 \<noteq> [] \<and> (\<forall>c\<in>set (g1 @ g2). is_digit c)"
proof -
  obtain a t where at: "line = a @ t" "adv_stats_pat t = Some (g1, g2)"
    using search_Some_suffix [OF assms] by blast
  from at(2) obtain r1 r2 r3 r4 where
    l1: "lit ''Total adversary guard relays: '' t = Some r1" and d1: "digits1 r1 = Some (g1, r2)" and
    l2: "lit '', Total adversary exit relays: '' r2 = Some r3" and d2: "digits1 r3 = Some (g2, r4)"
    unfolding adv_stats_pat_def by (auto simp: Option.bind_eq_Some_conv)
  from l1 l2 have "t = ''Total adversary guard relays: '' @ r1"
    "r2 = '', Total adversary exit relays: '' @ r3"
    by (simp_all only: lit_Some_iff)
  moreover from d1 d2 have "r1 = g1 @ r2" "r3 = g2 @ r4"
    and "g1 \<noteq> []" "g2 \<noteq> []"
    and "\<forall>c\<in>set g1. is_digit c" "\<forall>c\<in>set g2. is_digit c"
    by (auto dest: digits1_sound)
  ultimately have "line = a @ ''Total adversary guard relays: '' @ g1
                    @ '', Total adversary exit relays: '' @ g2 @ r4
     \<and> g1 \<noteq> [] \<and> g2 \<noteq> [] \<and> (\<forall>c\<in>set (g1 @ g2). is_digit c)"
    using at(1) by (simp only: append_assoc set_append) blast
  then show ?thesis by blast
qed

lemma circuit_pat_groups:
  assumes "search circuit_pat line = Some (g1, guard, middle, exit_relay)"
  shows "\<exists>a b. line = a @ ''Client '' @ g1
                    @ '' uses the following circuit for a stream request: ''
                    @ guard @ '' '' @ middle @ '' '' @ exit_relay @ b
     \<and> g1 \<noteq> [] \<and> (\<forall>c\<in>set g1. is_digit c)
     \<and> guard \<noteq> [] \<and> middle \<noteq> [] \<and> exit_relay \<noteq> []
     \<and> (\<forall>c\<in>set (guard @ middle @ exit_relay). \<not> is_space c)"
proof -
  obtain a t where at: "line = a @ t" "circuit_pat t = Some (g1, guard, middle, exit_relay)"
    using search_Some_suffix [OF assms] by blast
  from at(2) obtain r1 r2 r3 r4 r5 r6 r7 r8 where
    l1: "lit ''Client '' t = Some r1" and d1: "digits1 r1 = Some (g1, r2)" and
    l2: "lit '' uses the following circuit for a stream request: '' r2 = Some r3" and
    d2: "nonspace1 r3 = Some (guard, r4)" and
    l3: "lit '' '' r4 = Some r5" and d3: "nonspace1 r5 = Some (middle, r6)" and
    l4: "lit '' '' r6 = Some r7" and d4: "nonspace1 r7 = Some (exit_relay, r8)"
    unfolding circuit_pat_def by (auto simp: Option.bind_eq_Some_conv)
  from l1 l2 l3 l4 have "t = ''Client '' @ r1"
    "r2 = '' uses the following circuit for a stream request: '' @ r3"
    "r4 = '' '' @ r5" "r6 = '' '' @ r7"
    by (simp_all only: lit_Some_iff)
  moreover from d1 have "r1 = g1 @ r2" "g1 \<noteq> []" "\<forall>c\<in>set g1. is_digit c"
    by (auto dest: digits1_sound)
  moreover from d2 d3 d4 have "r3 = guard @ r4" "r5 = middle @ r6" "r7 = exit_relay @ r8"
    and "guard \<noteq> []" "middle \<noteq> []" "exit_relay \<noteq> []"
    and "\<forall>c\<in>set guard. \<not> is_space c" "\<forall>c\<in>set middle. \<not> is_space c"
      "\<forall>c\<in>set exit_relay. \<not> is_space c"
    by (auto dest: nonspace1_sound)
  ultimately have "line = a @ ''Client '' @ g1
                    @ '' uses the following circuit for a stream request: ''
                    @ guard @ '' '' @ middle @ '' '' @ exit_relay @ r8
     \<and> g1 \<noteq> [] \<and> (\<forall>c\<in>set g1. is_digit c)
     \<and> guard \<noteq> [] \<and> middle \<noteq> [] \<and> exit_relay \<noteq> []
     \<and> (\<forall>c\<in>set (guard @ middle @ exit_relay). \<not> is_space c)"
    using at(1) by (simp only: append_assoc set_append) blast
  then show ?thesis by blast
qed

lemma is_digit_code: "is_digit c \<Longrightarrow> 48 \<le> (of_char c :: nat)"
  by (auto simp: is_digit_def)

lemma foldl_py_int_nonneg:
  "0 \<le> a \<Longrightarrow> \<forall>c\<in>set d. is_digit c \<Longrightarrow>
   0 \<le> foldl (\<lambda>a c. 10 * a + (int (of_char c) - 48)) a d"
proof (induction d arbitrary: a)
  case Nil
  then show ?case by simp
next
  case (Cons c d)
  from Cons.prems have "48 \<le> (of_char c :: nat)" by (simp add: is_digit_code)
  then have "0 \<le> 10 * a + (int (of_char c) - 48)" using Cons.prems(1) by simp
  then show ?case using Cons by simp
qed

lemma py_int_nonneg: "\<forall>c\<in>set d. is_digit c \<Longrightarrow> 0 \<le> py_int d"
  unfolding py_int_def by (rule foldl_py_int_nonneg) simp_all

lemma circuit_pat_client:
  "circuit_pat s = Some (g1, guard, middle, exit_relay) \<Longrightarrow> \<forall>c\<in>set g1. is_digit c"
  unfolding circuit_pat_def
  by (auto simp: Option.bind_eq_Some_conv dest!: digits1_sound)

lemma search_circuit_client:
  "search circuit_pat line = Some (g1, guard, middle, exit_relay) \<Longrightarrow> 0 \<le> py_int g1"
  using search_Some_suffix [of circuit_pat line] circuit_pat_client py_int_nonneg by blast

lemma strip_nonempty: "c \<in> set s \<Longrightarrow> \<not> is_space c \<Longrightarrow> strip s \<noteq> []"
proof -
  assume c: "c \<in> set s" "\<not> is_space c"
  then have ne: "dropWhile is_space s \<noteq> []" by (auto simp: dropWhile_eq_Nil_conv)
  then have "\<not> is_space (hd (dropWhile is_space s))" by (rule hd_dropWhile)
  moreover from ne have "hd (dropWhile is_space s) \<in> set (rev (dropWhile is_space s))" by simp
  ultimately have "dropWhile is_space (rev (dropWhile is_space s)) \<noteq> []"
    by (auto simp: dropWhile_eq_Nil_conv)
  then show ?thesis by (simp add: strip_def)
qed

lemma is_epoch_truthy: "is_epoch line \<Longrightarrow> truthy (Some (strip line))"
proof -
  assume "is_epoch line"
  then obtain a m b where
    "line = a @ ''['' @ m @ ''] Entering simulation epoch with consensus from'' @ b"
    unfolding is_epoch_iff by blast
  then have "CHR ''['' \<in> set line" by simp
  moreover have "\<not> is_space CHR ''[''" by (simp add: is_space_def)
  ultimately have "strip line \<noteq> []" by (rule strip_nonempty)
  then show ?thesis by (simp add: truthy_def)
qed

section \<open>Dictionaries\<close>

lemma dd_set_dd_add:
  "dd_set (dd_add k v d) k' = (if k' = k then insert v (dd_set d k) else dd_set d k')"
  by (simp add: dd_set_def dd_add_def update_conv')

lemma keys_dd_add: "fst ` set (dd_add k v d) = insert k (fst ` set d)"
  by (simp add: dd_add_def dom_update)

lemma distinct_dd_add: "distinct (map fst d) \<Longrightarrow> distinct (map fst (dd_add k v d))"
  by (simp add: dd_add_def distinct_update)

lemma keys_dd_incr: "fst ` set (dd_incr k d) = insert k (fst ` set d)"
  by (simp add: dd_incr_def dom_update)

lemma distinct_dd_incr: "distinct (map fst d) \<Longrightarrow> distinct (map fst (dd_incr k d))"
  by (simp add: dd_incr_def distinct_update)

lemma sum_update:
  "sum_list (map snd (AList.update k v d))
     = sum_list (map snd d) + v - (case map_of d k of None \<Rightarrow> 0 | Some w \<Rightarrow> w)"
  for v :: int
  by (induction d) auto

lemma sum_dd_incr: "sum_list (map snd (dd_incr k d)) = sum_list (map snd d) + 1"
  by (simp add: dd_incr_def dd_int_def sum_update split: option.splits)

lemma dict_get_dd_incr:
  "dict_get (dd_incr k d) k' 0 = (if k' = k then dict_get d k 0 + 1 else dict_get d k' 0)"
  by (simp add: dict_get_def dd_incr_def dd_int_def update_conv')

lemma dict_get_absent: "k \<notin> fst ` set d \<Longrightarrow> dict_get d k dflt = dflt"
proof -
  assume "k \<notin> fst ` set d"
  then have "map_of d k = None" by (simp add: map_of_eq_None_iff)
  then show ?thesis by (simp add: dict_get_def)
qed

lemma sum_list_if_absent:
  "k \<notin> set ks \<Longrightarrow> sum_list (map (\<lambda>x. if x = k then v else f x) ks) = sum_list (map f ks)"
  by (induction ks) auto

lemma sum_list_single_out:
  "distinct ks \<Longrightarrow> k \<in> set ks \<Longrightarrow>
   sum_list (map (\<lambda>x. if x = k then v else f x) ks) = v + sum_list (map f ks) - f k"
  for v :: int
  by (induction ks) (auto simp: sum_list_if_absent)

lemma sum_dict_get:
  "distinct (map fst d) \<Longrightarrow> fst ` set d \<subseteq> set ks \<Longrightarrow> distinct ks \<Longrightarrow>
   sum_list (map (\<lambda>k. dict_get d k (0::int)) ks) = sum_list (map snd d)"
proof (induction d)
  case Nil
  then show ?case by (simp add: dict_get_def)
next
  case (Cons p d)
  obtain k v where p: "p = (k, v)" by (cases p)
  from Cons.prems p have k: "k \<in> set ks" "k \<notin> fst ` set d" by auto
  have "(\<lambda>x. dict_get (p # d) x 0) = (\<lambda>x. if x = k then v else dict_get d x 0)"
    by (auto simp: dict_get_def p)
  then have "sum_list (map (\<lambda>x. dict_get (p # d) x 0) ks)
           = v + sum_list (map (\<lambda>x. dict_get d x 0) ks) - dict_get d k 0"
    using sum_list_single_out [OF Cons.prems(3) k(1)] by simp
  also have "\<dots> = v + sum_list (map snd d)"
    using Cons.IH Cons.prems k(2) by (simp add: dict_get_absent)
  finally show ?case by (simp add: p)
qed

lemma py_max_eq_Max: "xs \<noteq> [] \<Longrightarrow> py_max xs = Max (set xs)"
  by (cases xs) (simp_all add: py_max_def Max.set_eq_fold [symmetric])

lemma card_le_Max_Suc:
  fixes K :: "int set"
  assumes "finite K" "K \<noteq> {}" "\<forall>k\<in>K. 0 \<le> k"
  shows "int (card K) \<le> Max K + 1"
proof -
  have "K \<subseteq> {0..Max K}" using assms by auto
  then have "card K \<le> card {0..Max K}" by (rule card_mono [rotated]) simp
  moreover have "0 \<le> Max K" using assms by (meson Max_in)
  ultimately show ?thesis by simp
qed

section \<open>The loop, line by line\<close>

lemmas eval_defs = analyze_torfs_output_def make_results_def scan_def init_state_def
  process_line_def is_epoch_def epoch_pat_def relay_stats_pat_def adv_stats_pat_def
  circuit_pat_def digits1_def nonspace1_def is_digit_def is_space_def on_circuit_def
  on_epoch_def on_relay_stats_def on_adv_stats_def py_int_def endswith_star_def dd_incr_def
  dd_add_def dd_int_def dd_set_def py_max_def final_epochs_def truthy_def strip_def
  count_clients_def

lemma process_line_classify:
  "process_line s line =
     (case classify line of
        Epoch_marker \<Rightarrow> on_epoch line s
      | Relay_count g \<Rightarrow> on_relay_stats g s
      | Adv_count g \<Rightarrow> on_adv_stats g s
      | Circuit_usage g \<Rightarrow> on_circuit g s
      | Ignored \<Rightarrow> s)"
  by (simp add: process_line_def classify_def split: option.splits)

lemma classify_epoch_iff: "classify line = Epoch_marker \<longleftrightarrow> is_epoch line"
  by (simp add: classify_def split: option.splits)

lemma scan_snoc: "scan (ls @ [l]) = process_line (scan ls) l"
  by (simp add: scan_def)

lemma scan_Nil: "scan [] = init_state"
  by (simp add: scan_def)

lemma scan_append: "scan (xs @ ys) = foldl process_line (scan xs) ys"
  by (simp add: scan_def)

lemma circuit_uses_snoc: "circuit_uses (ls @ [l]) = circuit_uses ls @ uses_of l"
  by (simp add: circuit_uses_def)

lemma first_seen_snoc:
  "first_seen (us @ [u]) = first_seen us @ (if snd u \<in> snd ` set us then [] else [u])"
proof -
  have a: "filter (\<lambda>i. snd ((us @ [u]) ! i) \<notin> snd ` set (take i (us @ [u]))) [0..<length us]
         = filter (\<lambda>i. snd (us ! i) \<notin> snd ` set (take i us)) [0..<length us]"
    by (rule filter_cong) (auto simp: nth_append)
  have b: "map (\<lambda>i. (us @ [u]) ! i) (filter (\<lambda>i. snd (us ! i) \<notin> snd ` set (take i us)) [0..<length us])
         = map (\<lambda>i. us ! i) (filter (\<lambda>i. snd (us ! i) \<notin> snd ` set (take i us)) [0..<length us])"
    by (rule map_cong) (auto simp: nth_append)
  have "first_seen (us @ [u])
        = map (\<lambda>i. (us @ [u]) ! i)
            (filter (\<lambda>i. snd ((us @ [u]) ! i) \<notin> snd ` set (take i (us @ [u]))) [0..<length us])
          @ (if snd u \<in> snd ` set us then [] else [u])"
    unfolding first_seen_def by simp
  also have "\<dots> = first_seen us @ (if snd u \<in> snd ` set us then [] else [u])"
    unfolding first_seen_def by (simp only: a b)
  finally show ?thesis .
qed

lemma first_seen_Nil: "first_seen [] = []"
  by (simp add: first_seen_def)

lemma first_seen_subset: "set (first_seen us) \<subseteq> set us"
  by (auto simp: first_seen_def)

lemma uses_of_cases:
  "uses_of l = [] \<or> (\<exists>g1 guard middle exit_relay.
      classify l = Circuit_usage (g1, guard, middle, exit_relay)
      \<and> uses_of l = [(py_int g1, (guard, middle, exit_relay))])"
  by (auto simp: uses_of_def split: event.splits)

lemma uses_of_not_circuit: "(\<And>g. classify l \<noteq> Circuit_usage g) \<Longrightarrow> uses_of l = []"
  by (auto simp: uses_of_def split: event.splits)

lemma uses_of_shape: "uses_of l = [] \<or> (\<exists>c i. uses_of l = [(c, i)])"
  by (auto simp: uses_of_def split: event.splits)

lemma uses_of_nonneg: "u \<in> set (uses_of l) \<Longrightarrow> 0 \<le> fst u"
  by (auto simp: uses_of_def classify_def split: event.splits option.splits if_splits
      dest: search_circuit_client)

lemma on_circuit_eq:
  "on_circuit (g1, guard, middle, exit_relay) s =
     (if compromised_id (guard, middle, exit_relay) \<and> (guard, middle, exit_relay) \<notin> all_circuits s
      then s\<lparr> circuits_compromised :=
                dd_incr (comp_of (guard, middle, exit_relay)) (circuits_compromised s),
              exposures :=
                dd_add (py_int g1) (comp_of (guard, middle, exit_relay)) (exposures s),
              all_circuits := insert (guard, middle, exit_relay) (all_circuits s) \<rparr>
      else s\<lparr> all_circuits := insert (guard, middle, exit_relay) (all_circuits s) \<rparr>)"
  by (auto simp: on_circuit_def compromised_id_def comp_of_def Let_def)

lemma process_line_no_use:
  assumes "uses_of l = []"
  shows "all_circuits (process_line s l) = all_circuits s"
    and "circuits_compromised (process_line s l) = circuits_compromised s"
    and "exposures (process_line s l) = exposures s"
  using assms
  by (auto simp: process_line_classify uses_of_def on_epoch_def on_relay_stats_def
      on_adv_stats_def split: event.splits prod.splits)

lemma process_line_use:
  assumes "uses_of l = [(c, i)]"
  shows "all_circuits (process_line s l) = insert i (all_circuits s)"
    and "circuits_compromised (process_line s l) =
           (if compromised_id i \<and> i \<notin> all_circuits s
            then dd_incr (comp_of i) (circuits_compromised s) else circuits_compromised s)"
    and "exposures (process_line s l) =
           (if compromised_id i \<and> i \<notin> all_circuits s
            then dd_add c (comp_of i) (exposures s) else exposures s)"
  using assms
  by (auto simp: process_line_classify uses_of_def on_circuit_eq split: event.splits prod.splits)

lemma process_line_seen:
  "uses_of l = [(c, i)] \<Longrightarrow> i \<in> all_circuits s \<Longrightarrow> process_line s l = s"
  by (auto simp: process_line_classify uses_of_def on_circuit_eq insert_absorb
      split: event.splits prod.splits)

lemma uses_of_line_g1: "uses_of line_g1 = [(3, (''G1*'', ''M1'', ''X1''))]"
  by (simp add: uses_of_def classify_def line_g1_def eval_defs)

lemma uses_of_line_clean9: "uses_of line_clean9 = [(9, (''G2'', ''M2'', ''X2''))]"
  by (simp add: uses_of_def classify_def line_clean9_def eval_defs)

lemma comp_of_samples:
  "comp_of (''G1*'', ''M1'', ''X1'') = (True, False, False)"
  "compromised_id (''G1*'', ''M1'', ''X1'')"
  "comp_of (''G2'', ''M2'', ''X2'') = (False, False, False)"
  "\<not> compromised_id (''G2'', ''M2'', ''X2'')"
  by (simp_all add: comp_of_def compromised_id_def endswith_star_def)

lemma scan_line_g1:
  "scan [line_g1] = init_state\<lparr> circuits_compromised := [((True, False, False), 1)],
                                  exposures := [(3, {(True, False, False)})],
                                  all_circuits := {(''G1*'', ''M1'', ''X1'')} \<rparr>"
proof -
  have "classify line_g1 = Circuit_usage (''3'', ''G1*'', ''M1'', ''X1'')"
    by (simp add: classify_def line_g1_def eval_defs)
  moreover have "py_int ''3'' = 3" by (simp add: py_int_def)
  ultimately show ?thesis
    using scan_snoc [of "[]" line_g1]
    by (simp add: scan_Nil process_line_classify on_circuit_eq comp_of_samples init_state_def
        dd_incr_def dd_add_def dd_int_def dd_set_def)
qed

lemma sample_kinds:
  "is_epoch line_epoch_a" "is_epoch line_epoch_b"
  "\<not> is_epoch line_relays" "\<not> is_epoch line_adv" "\<not> is_epoch line_g1"
  "count_line line_relays" "count_line line_adv" "\<not> count_line line_g1"
  "\<not> count_line line_epoch_a"
  by (simp_all add: count_line_def classify_def line_epoch_a_def line_epoch_b_def
      line_relays_def line_adv_def line_g1_def eval_defs)

lemma scan_counts_sample:
  "relay_stats (scan [line_epoch_a, line_relays, line_adv])
     = \<lparr> total_relays = 100, total_guards = 20, total_exits = 10,
         adv_guards = 2, adv_exits = 1 \<rparr>"
  "relay_stats (scan [line_relays])
     = \<lparr> total_relays = 100, total_guards = 20, total_exits = 10,
         adv_guards = 0, adv_exits = 0 \<rparr>"
  by (simp_all add: line_epoch_a_def line_relays_def line_adv_def eval_defs)

section \<open>The invariant of the loop\<close>

lemma all_circuits_scan: "all_circuits (scan ls) = snd ` set (circuit_uses ls)"
proof (induction ls rule: rev_induct)
  case Nil
  then show ?case by (simp add: scan_Nil init_state_def circuit_uses_def)
next
  case (snoc l ls)
  from uses_of_shape [of l] show ?case
  proof
    assume "uses_of l = []"
    with snoc show ?thesis by (simp add: scan_snoc circuit_uses_snoc process_line_no_use)
  next
    assume "\<exists>c i. uses_of l = [(c, i)]"
    then obtain c i where "uses_of l = [(c, i)]" by blast
    with snoc show ?thesis by (simp add: scan_snoc circuit_uses_snoc process_line_use)
  qed
qed

lemma first_seen_compromised_Nil: "first_seen_compromised [] = []"
  by (simp add: first_seen_compromised_def circuit_uses_def first_seen_Nil)

lemma first_seen_compromised_snoc_none:
  "uses_of l = [] \<Longrightarrow> first_seen_compromised (ls @ [l]) = first_seen_compromised ls"
  by (simp add: first_seen_compromised_def circuit_uses_snoc)

lemma first_seen_compromised_snoc_use:
  "uses_of l = [(c, i)] \<Longrightarrow>
   first_seen_compromised (ls @ [l]) =
     first_seen_compromised ls
     @ (if compromised_id i \<and> i \<notin> all_circuits (scan ls) then [(c, i)] else [])"
  by (simp add: first_seen_compromised_def circuit_uses_snoc first_seen_snoc all_circuits_scan)

text \<open>The invariant of the loop, in terms of the log read so far.\<close>

lemma scan_invariant:
  "finite (all_circuits (scan ls))
   \<and> distinct (map fst (circuits_compromised (scan ls)))
   \<and> fst ` set (circuits_compromised (scan ls)) \<subseteq> set all_combinations
   \<and> sum_list (map snd (circuits_compromised (scan ls)))
       = int (card {i \<in> all_circuits (scan ls). compromised_id i})
   \<and> distinct (map fst (exposures (scan ls)))
   \<and> fst ` set (exposures (scan ls)) = fst ` set (first_seen_compromised ls)
   \<and> (\<forall>c. dd_set (exposures (scan ls)) c
            = (\<lambda>u. comp_of (snd u)) ` {u \<in> set (first_seen_compromised ls). fst u = c})"
proof (induction ls rule: rev_induct)
  case Nil
  then show ?case
    by (simp add: scan_Nil init_state_def first_seen_compromised_Nil dd_set_def)
next
  case (snoc l ls)
  let ?s = "scan ls"
  from uses_of_shape [of l] show ?case
  proof
    assume u: "uses_of l = []"
    with snoc show ?thesis
      by (simp add: scan_snoc process_line_no_use first_seen_compromised_snoc_none)
  next
    assume "\<exists>c i. uses_of l = [(c, i)]"
    then obtain c i where u: "uses_of l = [(c, i)]" by blast
    show ?thesis
    proof (cases "compromised_id i \<and> i \<notin> all_circuits ?s")
      case False
      have st: "all_circuits (scan (ls @ [l])) = insert i (all_circuits ?s)"
        "circuits_compromised (scan (ls @ [l])) = circuits_compromised ?s"
        "exposures (scan (ls @ [l])) = exposures ?s"
        "first_seen_compromised (ls @ [l]) = first_seen_compromised ls"
        using False u
        by (auto simp: scan_snoc process_line_use first_seen_compromised_snoc_use)
      have "{j \<in> insert i (all_circuits ?s). compromised_id j}
              = {j \<in> all_circuits ?s. compromised_id j}"
        using False by auto
      with snoc show ?thesis unfolding st by simp
    next
      case True
      have st: "all_circuits (scan (ls @ [l])) = insert i (all_circuits ?s)"
        "circuits_compromised (scan (ls @ [l])) = dd_incr (comp_of i) (circuits_compromised ?s)"
        "exposures (scan (ls @ [l])) = dd_add c (comp_of i) (exposures ?s)"
        "first_seen_compromised (ls @ [l]) = first_seen_compromised ls @ [(c, i)]"
        using True u
        by (auto simp: scan_snoc process_line_use first_seen_compromised_snoc_use)
      have v: "comp_of i \<in> set all_combinations"
        using True by (cases "comp_of i") (auto simp: compromised_id_def all_combinations_def)
      have "{j \<in> insert i (all_circuits ?s). compromised_id j}
              = insert i {j \<in> all_circuits ?s. compromised_id j}"
        using True by auto
      moreover have "i \<notin> {j \<in> all_circuits ?s. compromised_id j}" using True by simp
      moreover have "finite {j \<in> all_circuits ?s. compromised_id j}" using snoc by simp
      ultimately have card: "card {j \<in> insert i (all_circuits ?s). compromised_id j}
              = Suc (card {j \<in> all_circuits ?s. compromised_id j})"
        by simp
      have sets: "(\<lambda>u. comp_of (snd u)) ` {u \<in> set (first_seen_compromised ls @ [(c, i)]). fst u = c'}
           = (if c' = c
              then insert (comp_of i)
                     ((\<lambda>u. comp_of (snd u)) ` {u \<in> set (first_seen_compromised ls). fst u = c'})
              else (\<lambda>u. comp_of (snd u)) ` {u \<in> set (first_seen_compromised ls). fst u = c'})" for c'
      proof -
        have "{u \<in> set (first_seen_compromised ls @ [(c, i)]). fst u = c'}
               = (if c' = c then insert (c, i) {u \<in> set (first_seen_compromised ls). fst u = c'}
                  else {u \<in> set (first_seen_compromised ls). fst u = c'})"
          by auto
        then show ?thesis by simp
      qed
      have a1: "finite (insert i (all_circuits ?s))" using snoc by simp
      have a2: "distinct (map fst (dd_incr (comp_of i) (circuits_compromised ?s)))"
        using snoc by (simp add: distinct_dd_incr)
      have a3: "fst ` set (dd_incr (comp_of i) (circuits_compromised ?s)) \<subseteq> set all_combinations"
        using snoc v by (simp add: keys_dd_incr)
      have a4: "sum_list (map snd (dd_incr (comp_of i) (circuits_compromised ?s)))
                 = int (card {j \<in> insert i (all_circuits ?s). compromised_id j})"
        using snoc by (simp only: sum_dd_incr card)
      have a5: "distinct (map fst (dd_add c (comp_of i) (exposures ?s)))"
        using snoc by (simp add: distinct_dd_add)
      have a6: "fst ` set (dd_add c (comp_of i) (exposures ?s))
                 = fst ` set (first_seen_compromised ls @ [(c, i)])"
        using snoc by (simp add: keys_dd_add)
      have a7: "dd_set (dd_add c (comp_of i) (exposures ?s)) c'
                 = (\<lambda>u. comp_of (snd u)) ` {u \<in> set (first_seen_compromised ls @ [(c, i)]). fst u = c'}" for c'
        using snoc by (simp only: sets dd_set_dd_add) simp
      from a1 a2 a3 a4 a5 a6 a7 show ?thesis unfolding st by blast
    qed
  qed
qed

section \<open>The result structure in terms of the log\<close>

lemma results_fields:
  "total_circuits (analyze_torfs_output iter ls) = int (card (all_circuits (scan ls)))"
  "compromised_circuits (analyze_torfs_output iter ls)
     = sum_list (map snd (circuits_compromised (scan ls)))"
  "circuit_counts (analyze_torfs_output iter ls) = circuits_compromised (scan ls)"
  "total_clients (analyze_torfs_output iter ls)
     = (if exposures (scan ls) \<noteq> [] then py_max (map fst (exposures (scan ls))) + 1 else 0)"
  "compromised_clients (analyze_torfs_output iter ls) = int (length (exposures (scan ls)))"
  "client_counts (analyze_torfs_output iter ls) = count_clients iter (exposures (scan ls))"
  "client_exposures (analyze_torfs_output iter ls) = exposures (scan ls)"
  by (simp_all add: analyze_torfs_output_def make_results_def)

lemma epoch_data_analyze: "epoch_data (analyze_torfs_output iter ls) = final_epochs (scan ls)"
  by (simp add: analyze_torfs_output_def make_results_def)

lemma compromised_circuits_card:
  "compromised_circuits (analyze_torfs_output iter ls)
     = int (card {i \<in> snd ` set (circuit_uses ls). compromised_id i})"
  using scan_invariant [of ls] by (simp add: results_fields all_circuits_scan)

lemma exposures_empty_iff: "exposures (scan ls) = [] \<longleftrightarrow> first_seen_compromised ls = []"
proof -
  have "fst ` set (exposures (scan ls)) = fst ` set (first_seen_compromised ls)"
    using scan_invariant [of ls] by simp
  then show ?thesis by (metis image_is_empty set_empty)
qed

lemma total_clients_Max:
  "total_clients (analyze_torfs_output iter ls)
     = (if first_seen_compromised ls = [] then 0
        else Max (fst ` set (first_seen_compromised ls)) + 1)"
proof (cases "first_seen_compromised ls = []")
  case True
  then show ?thesis by (simp add: results_fields exposures_empty_iff)
next
  case False
  then have ne: "exposures (scan ls) \<noteq> []" by (simp add: exposures_empty_iff)
  then have "py_max (map fst (exposures (scan ls))) = Max (set (map fst (exposures (scan ls))))"
    by (simp add: py_max_eq_Max)
  also have "\<dots> = Max (fst ` set (first_seen_compromised ls))"
    using scan_invariant [of ls] by simp
  finally show ?thesis using False ne by (simp add: results_fields)
qed

lemma first_seen_compromised_nonneg: "u \<in> set (first_seen_compromised ls) \<Longrightarrow> 0 \<le> fst u"
proof -
  assume "u \<in> set (first_seen_compromised ls)"
  then have "u \<in> set (circuit_uses ls)"
    using first_seen_subset by (auto simp: first_seen_compromised_def)
  then obtain l where "u \<in> set (uses_of l)" by (auto simp: circuit_uses_def)
  then show ?thesis by (rule uses_of_nonneg)
qed

lemma compromised_le_total:
  "compromised_clients (analyze_torfs_output iter ls) \<le> total_clients (analyze_torfs_output iter ls)"
proof (cases "first_seen_compromised ls = []")
  case True
  then show ?thesis by (simp add: results_fields exposures_empty_iff)
next
  case False
  let ?K = "fst ` set (first_seen_compromised ls)"
  have d: "distinct (map fst (exposures (scan ls)))"
    and k: "fst ` set (exposures (scan ls)) = ?K"
    using scan_invariant [of ls] by simp_all
  have "length (exposures (scan ls)) = card (set (map fst (exposures (scan ls))))"
    using d by (metis distinct_card length_map)
  then have "int (length (exposures (scan ls))) = int (card ?K)" using k by simp
  also have "\<dots> \<le> Max ?K + 1"
    using False by (intro card_le_Max_Suc) (auto dest: first_seen_compromised_nonneg)
  finally show ?thesis using False by (simp add: results_fields(5) total_clients_Max)
qed

section \<open>The running snapshot across epochs\<close>

lemma final_epochs_step:
  "length (final_epochs (process_line s l)) = length (final_epochs s) + (if is_epoch l then 1 else 0)"
proof (cases "is_epoch l")
  case True
  then show ?thesis
    using is_epoch_truthy [OF True]
    by (simp add: process_line_def on_epoch_def final_epochs_def)
next
  case False
  then show ?thesis
    by (simp add: process_line_def final_epochs_def on_relay_stats_def on_adv_stats_def
        on_circuit_def Let_def split: option.splits prod.splits)
qed

lemma length_final_epochs_scan:
  "length (final_epochs (scan ls)) = length (filter is_epoch ls)"
proof (induction ls rule: rev_induct)
  case Nil
  then show ?case by (simp add: scan_Nil init_state_def final_epochs_def truthy_def)
next
  case (snoc l ls)
  then show ?case by (simp add: scan_snoc final_epochs_step)
qed

lemma relay_stats_kept:
  "\<not> count_line l \<Longrightarrow> relay_stats (process_line s l) = relay_stats s"
  by (auto simp: count_line_def process_line_classify on_epoch_def on_circuit_eq
      split: event.splits prod.splits)

lemma relay_stats_kept_foldl:
  "\<forall>l\<in>set ls. \<not> count_line l \<Longrightarrow> relay_stats (foldl process_line s ls) = relay_stats s"
  by (induction ls arbitrary: s) (simp_all add: relay_stats_kept)

lemma epochs_kept:
  assumes "\<not> is_epoch l"
  shows "epochs (process_line s l) = epochs s"
    and "current_epoch (process_line s l) = current_epoch s"
  using assms
  by (auto simp: process_line_classify classify_epoch_iff on_relay_stats_def on_adv_stats_def
      on_circuit_eq split: event.splits prod.splits)

lemma epochs_kept_foldl:
  "\<forall>l\<in>set ls. \<not> is_epoch l \<Longrightarrow>
   epochs (foldl process_line s ls) = epochs s
   \<and> current_epoch (foldl process_line s ls) = current_epoch s"
  by (induction ls arbitrary: s) (simp_all add: epochs_kept)

lemma on_marker:
  assumes "is_epoch m"
  shows "epochs (process_line s m) = final_epochs s"
    and "truthy (current_epoch (process_line s m))"
    and "relay_stats (process_line s m) = relay_stats s"
  using assms is_epoch_truthy [OF assms]
  by (simp_all add: process_line_def on_epoch_def final_epochs_def)

lemma final_epochs_open:
  "truthy (current_epoch s) \<Longrightarrow> final_epochs s = epochs s @ [relay_stats s]"
  by (simp add: final_epochs_def)

lemma epochs_grow: "\<exists>ys. epochs (process_line s l) = epochs s @ ys"
proof (cases "is_epoch l")
  case True
  then show ?thesis by (simp add: on_marker final_epochs_def)
next
  case False
  then show ?thesis by (simp add: epochs_kept)
qed

lemma final_epochs_grow: "\<exists>ys. final_epochs (foldl process_line s ls) = epochs s @ ys"
proof (induction ls arbitrary: s)
  case Nil
  then show ?case by (simp add: final_epochs_def)
next
  case (Cons l ls)
  obtain ys where "final_epochs (foldl process_line (process_line s l) ls)
      = epochs (process_line s l) @ ys"
    using Cons [of "process_line s l"] by blast
  moreover obtain zs where "epochs (process_line s l) = epochs s @ zs"
    using epochs_grow by blast
  ultimately show ?case by simp
qed

lemma truthy_scan: "truthy (current_epoch (scan ls)) \<longleftrightarrow> filter is_epoch ls \<noteq> []"
proof (induction ls rule: rev_induct)
  case Nil
  then show ?case by (simp add: scan_Nil init_state_def truthy_def)
next
  case (snoc l ls)
  then show ?case by (cases "is_epoch l") (simp_all add: scan_snoc on_marker epochs_kept)
qed

text \<open>
  The snapshots of a log with a marker \<open>m\<close> whose span holds neither a marker nor a count
  line: those stored before \<open>m\<close>, then the running snapshot as it was at \<open>m\<close>.
\<close>

lemma epoch_data_split:
  assumes m: "is_epoch m"
    and mid: "\<forall>l\<in>set mid. \<not> is_epoch l \<and> \<not> count_line l"
    and post: "case post of [] \<Rightarrow> True | m' # rest \<Rightarrow> is_epoch m'"
  shows "\<exists>ys. epoch_data (analyze_torfs_output iter (pre @ m # mid @ post))
           = final_epochs (scan pre) @ relay_stats (scan pre) # ys"
proof -
  let ?s1 = "process_line (scan pre) m"
  let ?s2 = "foldl process_line ?s1 mid"
  have s2: "epochs ?s2 = final_epochs (scan pre)" "truthy (current_epoch ?s2)"
    "relay_stats ?s2 = relay_stats (scan pre)"
    using mid epochs_kept_foldl [of mid ?s1] relay_stats_kept_foldl [of mid ?s1]
    by (simp_all add: on_marker [OF m])
  have sc: "scan (pre @ m # mid @ post) = foldl process_line ?s2 post"
    by (simp add: scan_def)
  show ?thesis
  proof (cases post)
    case Nil
    then have "foldl process_line ?s2 post = ?s2" by simp
    then have "final_epochs (scan (pre @ m # mid @ post)) = final_epochs ?s2"
      by (simp only: sc)
    also have "\<dots> = epochs ?s2 @ [relay_stats ?s2]"
      using s2(2) by (rule final_epochs_open)
    also have "\<dots> = final_epochs (scan pre) @ relay_stats (scan pre) # []"
      by (simp only: s2)
    finally show ?thesis by (simp only: epoch_data_analyze) blast
  next
    case (Cons m' rest)
    then have p: "post = m' # rest" .
    with post have m': "is_epoch m'" by simp
    let ?s3 = "process_line ?s2 m'"
    obtain ys where "final_epochs (foldl process_line ?s3 rest) = epochs ?s3 @ ys"
      using final_epochs_grow by blast
    moreover have "epochs ?s3 = final_epochs ?s2" by (rule on_marker(1) [OF m'])
    moreover have "final_epochs ?s2 = epochs ?s2 @ [relay_stats ?s2]"
      using s2(2) by (rule final_epochs_open)
    moreover have "foldl process_line ?s2 post = foldl process_line ?s3 rest"
      by (simp add: p)
    then have "scan (pre @ m # mid @ post) = foldl process_line ?s3 rest"
      by (simp only: sc)
    ultimately have "final_epochs (scan (pre @ m # mid @ post))
        = final_epochs (scan pre) @ relay_stats (scan pre) # ys"
      by (simp only: s2) simp
    then show ?thesis by (simp only: epoch_data_analyze) blast
  qed
qed

section \<open>Independence of the order in which sets are walked\<close>

lemma map_of_dd_incr: "map_of (dd_incr k d) = (map_of d)(k \<mapsto> dd_int d k + 1)"
  by (simp add: dd_incr_def update_conv')

lemma map_of_fold_dd_incr:
  "distinct vs \<Longrightarrow> map_of (fold dd_incr vs cc) = bump (set vs) (map_of cc)"
proof (induction vs arbitrary: cc)
  case Nil
  then show ?case by (simp add: bump_def)
next
  case (Cons v vs)
  then have "map_of (fold dd_incr (v # vs) cc) = bump (set vs) (map_of (dd_incr v cc))"
    by simp
  also have "\<dots> = bump (set (v # vs)) (map_of cc)"
    using Cons.prems by (auto simp: bump_def map_of_dd_incr dd_int_def fun_eq_iff)
  finally show ?case .
qed

lemma distinct_fold_dd_incr:
  "distinct (map fst cc) \<Longrightarrow> distinct (map fst (fold dd_incr vs cc))"
  by (induction vs arbitrary: cc) (simp_all add: distinct_dd_incr)

lemma count_clients_fold:
  assumes "valid_iter it"
  shows "map_of (fold (\<lambda>exps cc. fold dd_incr (it exps) cc) Ss cc) = fold bump Ss (map_of cc)"
proof (induction Ss arbitrary: cc)
  case Nil
  then show ?case by simp
next
  case (Cons S Ss)
  have "map_of (fold dd_incr (it S) cc) = bump S (map_of cc)"
    using assms map_of_fold_dd_incr [of "it S" cc] by (simp add: valid_iter_def)
  with Cons [of "fold dd_incr (it S) cc"] show ?case by simp
qed

lemma distinct_count_clients_fold:
  "distinct (map fst cc) \<Longrightarrow>
   distinct (map fst (fold (\<lambda>exps cc. fold dd_incr (it exps) cc) Ss cc))"
  by (induction Ss arbitrary: cc) (simp_all add: distinct_fold_dd_incr)

lemma map_of_count_clients:
  "valid_iter it \<Longrightarrow> map_of (count_clients it ce) = fold bump (map snd ce) Map.empty"
  unfolding count_clients_def using count_clients_fold [of it "map snd ce" "[]"] by simp

lemma distinct_count_clients: "distinct (map fst (count_clients it ce))"
  unfolding count_clients_def by (rule distinct_count_clients_fold) simp

lemma breakdown_cong:
  "map_of c1 = map_of c2 \<Longrightarrow> breakdown what denom c1 ks = breakdown what denom c2 ks"
  by (induction ks) (simp_all add: dict_get_def Let_def)

lemma all_comp_types: "v \<in> set (all_combinations @ [(False, False, False)])"
  by (cases v) (auto simp: all_combinations_def)

lemma valid_iter_listed: "valid_iter iter_listed"
proof -
  have "distinct (all_combinations @ [(False, False, False)])"
    by (simp add: all_combinations_def)
  then have "distinct (iter_listed S)" for S
    unfolding iter_listed_def by (rule distinct_filter)
  moreover have "set (iter_listed S) = S" for S
  proof -
    have "set (iter_listed S) = {v \<in> set (all_combinations @ [(False, False, False)]). v \<in> S}"
      unfolding iter_listed_def by (rule set_filter)
    also have "\<dots> = S" using all_comp_types by blast
    finally show ?thesis .
  qed
  ultimately show ?thesis by (simp add: valid_iter_def)
qed

lemma valid_iter_reversed: "valid_iter iter_reversed"
  using valid_iter_listed by (simp add: valid_iter_def iter_reversed_def)

section \<open>Degenerate aggregates in the report\<close>

text \<open>
  C1: the renderer does not survive a degenerate aggregate. On the empty log the first
  division, by the number of circuits, raises; on a log whose only circuit is clean the
  division by the number of clients raises; on a log with an epoch marker and no relay
  counts the division by the average number of relays raises.
\<close>

theorem generate_report_zero_division:
  "generate_report (analyze_torfs_output iter []) = Inl ZeroDivisionError
   \<and> generate_report (analyze_torfs_output iter
        [''Client 3 uses the following circuit for a stream request: G1 M1 X1''])
      = Inl ZeroDivisionError
   \<and> relay_section (analyze_torfs_output iter
        [''Client 3 uses the following circuit for a stream request: G1* M1 X1'',
         ''[00:00] Entering simulation epoch with consensus from A''])
      = Inl ZeroDivisionError"
proof -
  have "generate_report (analyze_torfs_output iter []) = Inl ZeroDivisionError"
    by (simp add: analyze_torfs_output_def make_results_def scan_def init_state_def
        generate_report_def circuit_section_def truediv_def bind_err_def)
  moreover have "generate_report (analyze_torfs_output iter
        [''Client 3 uses the following circuit for a stream request: G1 M1 X1''])
      = Inl ZeroDivisionError"
    by (simp add: eval_defs generate_report_def circuit_section_def client_section_def
        truediv_def bind_err_def)
  moreover have "relay_section (analyze_torfs_output iter
        [''Client 3 uses the following circuit for a stream request: G1* M1 X1'',
         ''[00:00] Entering simulation epoch with consensus from A''])
      = Inl ZeroDivisionError"
    by (simp add: eval_defs relay_section_def truediv_def bind_err_def)
  ultimately show ?thesis by (simp only:)
qed

section \<open>Epoch markers\<close>

text \<open>
  C2, as the code has it: a line is an epoch marker exactly when it holds an opening
  bracket, then any characters but a line feed, then the closing bracket, a space and the
  marker text. What stands between the brackets and before them is ignored, but the
  brackets are required. Such a line stores the running snapshot if an epoch is open and
  opens the next epoch; nothing else changes.
\<close>

theorem epoch_marker_shape:
  "(is_epoch line \<longleftrightarrow>
      (\<exists>a m b. line = a @ ''['' @ m @ ''] Entering simulation epoch with consensus from'' @ b
               \<and> CHR 0x0A \<notin> set m))
   \<and> (is_epoch line \<longrightarrow>
        process_line s line =
          s\<lparr> epochs := (if truthy (current_epoch s) then epochs s @ [relay_stats s]
                        else epochs s),
             current_epoch := Some (strip line) \<rparr>
        \<and> truthy (current_epoch (process_line s line)))"
proof -
  have "is_epoch line \<Longrightarrow> process_line s line =
          s\<lparr> epochs := (if truthy (current_epoch s) then epochs s @ [relay_stats s]
                        else epochs s),
             current_epoch := Some (strip line) \<rparr>"
    by (simp add: process_line_def on_epoch_def)
  moreover have "is_epoch line \<Longrightarrow> truthy (current_epoch (process_line s line))"
    using is_epoch_truthy [of line] by (simp add: process_line_def on_epoch_def)
  ultimately show ?thesis using is_epoch_iff [of line] by blast
qed

theorem epoch_marker_shape_witness:
  "is_epoch ''[00:00] Entering simulation epoch with consensus from A''
   \<and> process_line init_state ''[00:00] Entering simulation epoch with consensus from A''
      = init_state\<lparr> current_epoch :=
                      Some ''[00:00] Entering simulation epoch with consensus from A'' \<rparr>"
proof -
  have "''[00:00] Entering simulation epoch with consensus from A''
      = [] @ ''['' @ ''00:00'' @ ''] Entering simulation epoch with consensus from'' @ '' A''
        \<and> CHR 0x0A \<notin> set ''00:00''"
    by simp
  then have "\<exists>a m b. ''[00:00] Entering simulation epoch with consensus from A''
      = a @ ''['' @ m @ ''] Entering simulation epoch with consensus from'' @ b
        \<and> CHR 0x0A \<notin> set m"
    by blast
  then have e: "is_epoch ''[00:00] Entering simulation epoch with consensus from A''"
    using epoch_marker_shape [of "''[00:00] Entering simulation epoch with consensus from A''"
        init_state]
    by (simp only: simp_thms)
  have "strip ''[00:00] Entering simulation epoch with consensus from A''
      = ''[00:00] Entering simulation epoch with consensus from A''"
    by (simp add: strip_def is_space_def)
  with e show ?thesis
    using epoch_marker_shape [of "''[00:00] Entering simulation epoch with consensus from A''"
        init_state]
    by (simp add: init_state_def truthy_def)
qed

theorem epoch_marker_unbracketed_counterexample:
  "\<not> is_epoch ''Entering simulation epoch with consensus from A''
   \<and> process_line init_state ''Entering simulation epoch with consensus from A'' = init_state
   \<and> epoch_data (analyze_torfs_output iter_listed
        [''Entering simulation epoch with consensus from A'']) = []"
  by (simp add: eval_defs)

section \<open>Client counts\<close>

text \<open>
  C3: \<open>total_clients\<close> is one more than the largest client index among the uses that are
  compromised and first seen, and \<open>0\<close> when there is none. The log of the single line
  \<open>line_g1\<close> gives four clients, one of them compromised, and one compromised circuit of
  type guard; a later clean circuit of client 9 leaves \<open>total_clients\<close> at four.
\<close>

theorem total_clients_max_exposed:
  "total_clients (analyze_torfs_output iter ls)
     = (if first_seen_compromised ls = [] then 0
        else Max (fst ` set (first_seen_compromised ls)) + 1)
   \<and> total_circuits (analyze_torfs_output iter [line_g1]) = 1
   \<and> compromised_circuits (analyze_torfs_output iter [line_g1]) = 1
   \<and> circuit_counts (analyze_torfs_output iter [line_g1]) = [((True, False, False), 1)]
   \<and> total_clients (analyze_torfs_output iter [line_g1]) = 4
   \<and> compromised_clients (analyze_torfs_output iter [line_g1]) = 1
   \<and> total_clients (analyze_torfs_output iter [line_g1, line_clean9]) = 4"
proof -
  have b: "total_circuits (analyze_torfs_output iter [line_g1]) = 1
     \<and> compromised_circuits (analyze_torfs_output iter [line_g1]) = 1
     \<and> circuit_counts (analyze_torfs_output iter [line_g1]) = [((True, False, False), 1)]
     \<and> total_clients (analyze_torfs_output iter [line_g1]) = 4
     \<and> compromised_clients (analyze_torfs_output iter [line_g1]) = 1"
    by (simp add: results_fields scan_line_g1 init_state_def py_max_def)
  have "scan [line_g1, line_clean9] = process_line (scan [line_g1]) line_clean9"
    using scan_snoc [of "[line_g1]" line_clean9] by simp
  then have "exposures (scan [line_g1, line_clean9]) = [(3, {(True, False, False)})]"
    using process_line_use(3) [OF uses_of_line_clean9, of "scan [line_g1]"]
    by (simp add: comp_of_samples scan_line_g1 init_state_def)
  then have "total_clients (analyze_torfs_output iter [line_g1, line_clean9]) = 4"
    by (simp add: results_fields py_max_def)
  with b total_clients_Max [of iter ls] show ?thesis by (simp only: simp_thms)
qed

theorem total_clients_max_exposed_witness:
  "first_seen_compromised [line_clean9, line_g1, line_g1] = [(3, (''G1*'', ''M1'', ''X1''))]
   \<and> total_clients (analyze_torfs_output iter_listed [line_clean9, line_g1, line_g1]) = 4"
proof -
  have "first_seen_compromised [line_clean9, line_g1, line_g1] = [(3, (''G1*'', ''M1'', ''X1''))]"
    by (simp add: first_seen_compromised_def circuit_uses_def uses_of_line_g1
        uses_of_line_clean9 first_seen_def comp_of_samples)
  then show ?thesis
    using total_clients_max_exposed [of iter_listed "[line_clean9, line_g1, line_g1]"]
    by simp
qed

section \<open>Repeated circuits\<close>

text \<open>
  C4: a compromised circuit id counts once however many circuit-usage lines carry it.
  The number of compromised circuits is the number of distinct compromised ids; a line
  whose circuit id an earlier line has already shown changes nothing, so the log without
  that line has the same result; the first line with a compromised id adds one to the
  tally and its compromise type to the exposure set of its client. The line \<open>line_g1\<close>
  twice gives one circuit, one compromised circuit and one compromise type for client 3.
\<close>

theorem repeated_circuit_counts_once:
  "compromised_circuits (analyze_torfs_output iter ls)
     = int (card {i \<in> snd ` set (circuit_uses ls). compromised_id i})
   \<and> (uses_of l = [(c, i)] \<and> i \<in> snd ` set (circuit_uses ls) \<longrightarrow>
        process_line (scan ls) l = scan ls
        \<and> analyze_torfs_output iter (ls @ l # rest) = analyze_torfs_output iter (ls @ rest))
   \<and> (uses_of l = [(c, i)] \<and> compromised_id i \<and> i \<notin> snd ` set (circuit_uses ls) \<longrightarrow>
        compromised_circuits (analyze_torfs_output iter (ls @ [l]))
          = compromised_circuits (analyze_torfs_output iter ls) + 1
        \<and> dd_set (client_exposures (analyze_torfs_output iter (ls @ [l]))) c
          = insert (comp_of i) (dd_set (client_exposures (analyze_torfs_output iter ls)) c))
   \<and> total_circuits (analyze_torfs_output iter [line_g1, line_g1]) = 1
   \<and> compromised_circuits (analyze_torfs_output iter [line_g1, line_g1]) = 1
   \<and> client_exposures (analyze_torfs_output iter [line_g1, line_g1])
       = [(3, {(True, False, False)})]"
proof -
  have seen: "process_line (scan ls) l = scan ls
        \<and> analyze_torfs_output iter (ls @ l # rest) = analyze_torfs_output iter (ls @ rest)"
    if "uses_of l = [(c, i)]" "i \<in> snd ` set (circuit_uses ls)"
  proof -
    from that have p: "process_line (scan ls) l = scan ls"
      by (intro process_line_seen) (simp_all add: all_circuits_scan)
    have "scan (ls @ l # rest) = foldl process_line (process_line (scan ls) l) rest"
      by (simp add: scan_append)
    also have "\<dots> = scan (ls @ rest)" by (simp add: p scan_append)
    finally show ?thesis using p by (simp add: analyze_torfs_output_def)
  qed
  have new: "compromised_circuits (analyze_torfs_output iter (ls @ [l]))
          = compromised_circuits (analyze_torfs_output iter ls) + 1
        \<and> dd_set (client_exposures (analyze_torfs_output iter (ls @ [l]))) c
          = insert (comp_of i) (dd_set (client_exposures (analyze_torfs_output iter ls)) c)"
    if "uses_of l = [(c, i)]" "compromised_id i" "i \<notin> snd ` set (circuit_uses ls)"
    using that process_line_use(2,3) [OF that(1), of "scan ls"]
    by (simp add: results_fields scan_snoc all_circuits_scan sum_dd_incr dd_set_dd_add)
  have "process_line (scan [line_g1]) line_g1 = scan [line_g1]"
    by (rule process_line_seen [OF uses_of_line_g1]) (simp add: scan_line_g1)
  then have "scan [line_g1, line_g1] = scan [line_g1]"
    using scan_snoc [of "[line_g1]" line_g1] by simp
  then have c: "total_circuits (analyze_torfs_output iter [line_g1, line_g1]) = 1
     \<and> compromised_circuits (analyze_torfs_output iter [line_g1, line_g1]) = 1
     \<and> client_exposures (analyze_torfs_output iter [line_g1, line_g1])
         = [(3, {(True, False, False)})]"
    by (simp add: results_fields scan_line_g1 init_state_def)
  from seen new c compromised_circuits_card [of iter ls] show ?thesis by blast
qed

theorem repeated_circuit_counts_once_witness:
  "uses_of line_g1 = [(3, (''G1*'', ''M1'', ''X1''))]
   \<and> (''G1*'', ''M1'', ''X1'') \<in> snd ` set (circuit_uses [line_g1, line_clean9])
   \<and> analyze_torfs_output iter_listed ([line_g1, line_clean9] @ line_g1 # [line_clean9])
       = analyze_torfs_output iter_listed ([line_g1, line_clean9] @ [line_clean9])
   \<and> compromised_id (''G1*'', ''M1'', ''X1'')
   \<and> (''G1*'', ''M1'', ''X1'') \<notin> snd ` set (circuit_uses [line_clean9])
   \<and> compromised_circuits (analyze_torfs_output iter_listed ([line_clean9] @ [line_g1]))
       = compromised_circuits (analyze_torfs_output iter_listed [line_clean9]) + 1
   \<and> dd_set (client_exposures (analyze_torfs_output iter_listed ([line_clean9] @ [line_g1]))) 3
       = insert (True, False, False)
           (dd_set (client_exposures (analyze_torfs_output iter_listed [line_clean9])) 3)"
proof -
  have a: "(''G1*'', ''M1'', ''X1'') \<in> snd ` set (circuit_uses [line_g1, line_clean9])"
    by (simp add: circuit_uses_def uses_of_line_g1 uses_of_line_clean9)
  have b: "(''G1*'', ''M1'', ''X1'') \<notin> snd ` set (circuit_uses [line_clean9])"
    by (simp add: circuit_uses_def uses_of_line_clean9)
  from a b uses_of_line_g1 comp_of_samples(1,2) show ?thesis
    using repeated_circuit_counts_once [of iter_listed "[line_g1, line_clean9]" line_g1 3
        "(''G1*'', ''M1'', ''X1'')" "[line_clean9]"]
      repeated_circuit_counts_once [of iter_listed "[line_clean9]" line_g1 3
        "(''G1*'', ''M1'', ''X1'')" "[]"]
    by (simp only: simp_thms)
qed

section \<open>Circuit counts\<close>

text \<open>
  C5: the number of distinct circuits is the number of compromised circuits counted plus
  the number of distinct circuit ids without a marker in any position, and the number of
  compromised circuits is the sum of the tallies of the seven compromise types.
\<close>

theorem circuit_totals:
  "total_circuits (analyze_torfs_output iter ls)
     = compromised_circuits (analyze_torfs_output iter ls)
       + int (card {i \<in> snd ` set (circuit_uses ls). \<not> compromised_id i})
   \<and> compromised_circuits (analyze_torfs_output iter ls)
     = sum_list (map (\<lambda>v. dict_get (circuit_counts (analyze_torfs_output iter ls)) v 0)
                     all_combinations)"
proof -
  let ?A = "snd ` set (circuit_uses ls)"
  have "?A = {i \<in> ?A. compromised_id i} \<union> {i \<in> ?A. \<not> compromised_id i}" by auto
  moreover have "{i \<in> ?A. compromised_id i} \<inter> {i \<in> ?A. \<not> compromised_id i} = {}" by auto
  ultimately have "card ?A = card {i \<in> ?A. compromised_id i} + card {i \<in> ?A. \<not> compromised_id i}"
    by (metis (no_types, lifting) List.finite_set card_Un_disjoint finite_Un finite_imageI)
  then have t: "total_circuits (analyze_torfs_output iter ls)
     = compromised_circuits (analyze_torfs_output iter ls)
       + int (card {i \<in> ?A. \<not> compromised_id i})"
    by (simp add: compromised_circuits_card) (simp add: results_fields all_circuits_scan)
  have "distinct all_combinations" by (simp add: all_combinations_def)
  then have "sum_list (map (\<lambda>v. dict_get (circuits_compromised (scan ls)) v 0) all_combinations)
        = sum_list (map snd (circuits_compromised (scan ls)))"
    using scan_invariant [of ls] by (intro sum_dict_get) simp_all
  with t show ?thesis by (simp add: results_fields)
qed

theorem circuit_totals_witness:
  "total_circuits (analyze_torfs_output iter_listed [line_g1, line_clean9, line_g1]) = 2
   \<and> compromised_circuits (analyze_torfs_output iter_listed [line_g1, line_clean9, line_g1]) = 1
   \<and> card {i \<in> snd ` set (circuit_uses [line_g1, line_clean9, line_g1]). \<not> compromised_id i} = 1"
proof -
  have u: "snd ` set (circuit_uses [line_g1, line_clean9, line_g1])
            = {(''G1*'', ''M1'', ''X1''), (''G2'', ''M2'', ''X2'')}"
    by (auto simp: circuit_uses_def uses_of_line_g1 uses_of_line_clean9)
  have "{i \<in> {(''G1*'', ''M1'', ''X1''), (''G2'', ''M2'', ''X2'')}. \<not> compromised_id i}
          = {(''G2'', ''M2'', ''X2'')}"
    using comp_of_samples by auto
  then have c: "card {i \<in> snd ` set (circuit_uses [line_g1, line_clean9, line_g1]).
                      \<not> compromised_id i} = 1"
    by (simp only: u) simp
  have "card (snd ` set (circuit_uses [line_g1, line_clean9, line_g1])) = 2"
    by (simp only: u) simp
  then have t: "total_circuits (analyze_torfs_output iter_listed [line_g1, line_clean9, line_g1]) = 2"
    by (simp add: results_fields all_circuits_scan)
  from c t show ?thesis
    using circuit_totals [of iter_listed "[line_g1, line_clean9, line_g1]"] by simp
qed

section \<open>Epoch snapshots\<close>



section \<open>Relay-count and adversary-count lines\<close>

text \<open>
  C7: a line handled as a relay-count line (no epoch marker, the relay pattern matches with
  groups \<open>g1\<close>, \<open>g2\<close>, \<open>g3\<close>, which are the three runs of digits of the line's
  relay-count text) overwrites the three total fields of the running snapshot with the
  integers of the groups and changes nothing else; a line handled as an adversary-count
  line overwrites the two adversary fields with the integers of its two groups and changes
  nothing else.
\<close>

theorem count_lines_frame:
  "(\<not> is_epoch line \<and> search relay_stats_pat line = Some (g1, g2, g3) \<longrightarrow>
      process_line s line =
        s\<lparr> relay_stats := \<lparr> total_relays = py_int g1, total_guards = py_int g2,
                             total_exits = py_int g3,
                             adv_guards = adv_guards (relay_stats s),
                             adv_exits = adv_exits (relay_stats s) \<rparr> \<rparr>
      \<and> (\<exists>a b. line = a @ ''Total relays in consensus: '' @ g1
                       @ '', Valid/Running Guards: '' @ g2
                       @ '', Valid/Running Exits: '' @ g3 @ b))
   \<and> (\<not> is_epoch line \<and> search relay_stats_pat line = None
        \<and> search adv_stats_pat line = Some (h1, h2) \<longrightarrow>
      process_line s line =
        s\<lparr> relay_stats := \<lparr> total_relays = total_relays (relay_stats s),
                             total_guards = total_guards (relay_stats s),
                             total_exits = total_exits (relay_stats s),
                             adv_guards = py_int h1, adv_exits = py_int h2 \<rparr> \<rparr>
      \<and> (\<exists>a b. line = a @ ''Total adversary guard relays: '' @ h1
                       @ '', Total adversary exit relays: '' @ h2 @ b))"
proof -
  have "process_line s line =
        s\<lparr> relay_stats := \<lparr> total_relays = py_int g1, total_guards = py_int g2,
                             total_exits = py_int g3,
                             adv_guards = adv_guards (relay_stats s),
                             adv_exits = adv_exits (relay_stats s) \<rparr> \<rparr>"
    if "\<not> is_epoch line" "search relay_stats_pat line = Some (g1, g2, g3)"
    using that by (simp add: process_line_def on_relay_stats_def)
  moreover have "process_line s line =
        s\<lparr> relay_stats := \<lparr> total_relays = total_relays (relay_stats s),
                             total_guards = total_guards (relay_stats s),
                             total_exits = total_exits (relay_stats s),
                             adv_guards = py_int h1, adv_exits = py_int h2 \<rparr> \<rparr>"
    if "\<not> is_epoch line" "search relay_stats_pat line = None"
      "search adv_stats_pat line = Some (h1, h2)"
    using that by (simp add: process_line_def on_adv_stats_def)
  ultimately show ?thesis
    using relay_stats_pat_groups [of line g1 g2 g3] adv_stats_pat_groups [of line h1 h2]
    by blast
qed

theorem count_lines_frame_witness:
  "\<not> is_epoch ''Total relays in consensus: 100, Valid/Running Guards: 20, Valid/Running Exits: 10''
   \<and> search relay_stats_pat
        ''Total relays in consensus: 100, Valid/Running Guards: 20, Valid/Running Exits: 10''
      = Some (''100'', ''20'', ''10'')
   \<and> \<not> is_epoch ''Total adversary guard relays: 2, Total adversary exit relays: 1''
   \<and> search relay_stats_pat ''Total adversary guard relays: 2, Total adversary exit relays: 1''
      = None
   \<and> search adv_stats_pat ''Total adversary guard relays: 2, Total adversary exit relays: 1''
      = Some (''2'', ''1'')
   \<and> process_line
        (process_line init_state
           ''Total relays in consensus: 100, Valid/Running Guards: 20, Valid/Running Exits: 10'')
        ''Total adversary guard relays: 2, Total adversary exit relays: 1''
      = init_state\<lparr> relay_stats := \<lparr> total_relays = 100, total_guards = 20, total_exits = 10,
                                      adv_guards = 2, adv_exits = 1 \<rparr> \<rparr>"
proof -
  have a: "\<not> is_epoch
      ''Total relays in consensus: 100, Valid/Running Guards: 20, Valid/Running Exits: 10''"
    by (simp add: is_epoch_def epoch_pat_def)
  have b: "search relay_stats_pat
        ''Total relays in consensus: 100, Valid/Running Guards: 20, Valid/Running Exits: 10''
      = Some (''100'', ''20'', ''10'')"
    by (simp add: relay_stats_pat_def digits1_def is_digit_def)
  have c: "\<not> is_epoch ''Total adversary guard relays: 2, Total adversary exit relays: 1''"
    by (simp add: is_epoch_def epoch_pat_def)
  have d: "search relay_stats_pat
      ''Total adversary guard relays: 2, Total adversary exit relays: 1'' = None"
    by (simp add: relay_stats_pat_def digits1_def is_digit_def)
  have e: "search adv_stats_pat
      ''Total adversary guard relays: 2, Total adversary exit relays: 1'' = Some (''2'', ''1'')"
    by (simp add: adv_stats_pat_def digits1_def is_digit_def)
  have i: "py_int ''100'' = 100" "py_int ''20'' = 20" "py_int ''10'' = 10"
    "py_int ''2'' = 2" "py_int ''1'' = 1"
    by (simp_all add: py_int_def)
  from a b have f: "process_line init_state
      ''Total relays in consensus: 100, Valid/Running Guards: 20, Valid/Running Exits: 10''
      = init_state\<lparr> relay_stats := \<lparr> total_relays = 100, total_guards = 20, total_exits = 10,
                                      adv_guards = 0, adv_exits = 0 \<rparr> \<rparr>"
    using count_lines_frame [of
        "''Total relays in consensus: 100, Valid/Running Guards: 20, Valid/Running Exits: 10''"
        "''100''" "''20''" "''10''" init_state]
    by (simp add: i init_state_def)
  from c d e have "process_line
        (init_state\<lparr> relay_stats := \<lparr> total_relays = 100, total_guards = 20, total_exits = 10,
                                      adv_guards = 0, adv_exits = 0 \<rparr> \<rparr>)
        ''Total adversary guard relays: 2, Total adversary exit relays: 1''
      = init_state\<lparr> relay_stats := \<lparr> total_relays = 100, total_guards = 20, total_exits = 10,
                                      adv_guards = 2, adv_exits = 1 \<rparr> \<rparr>"
    using count_lines_frame [of
        "''Total adversary guard relays: 2, Total adversary exit relays: 1''" _ _ _
        "init_state\<lparr> relay_stats := \<lparr> total_relays = 100, total_guards = 20, total_exits = 10,
                                      adv_guards = 0, adv_exits = 0 \<rparr> \<rparr>" "''2''" "''1''"]
    by (simp add: i)
  with a b c d e f show ?thesis by (simp only: simp_thms)
qed

section \<open>Determinism\<close>

text \<open>
  C8: the result is a function of the sequence of lines. The only thing the analyzer takes
  from outside its input is the order in which Python walks the exposure sets, and that
  order does not show: for any two such orders all fields of the two results are equal,
  \<open>client_counts\<close> as the dictionary it is (the same keys with the same values), and the
  two reports are the same.
\<close>

theorem analysis_deterministic:
  assumes "valid_iter it1" and "valid_iter it2"
  shows "total_circuits (analyze_torfs_output it1 ls) = total_circuits (analyze_torfs_output it2 ls)
     \<and> compromised_circuits (analyze_torfs_output it1 ls)
         = compromised_circuits (analyze_torfs_output it2 ls)
     \<and> circuit_counts (analyze_torfs_output it1 ls) = circuit_counts (analyze_torfs_output it2 ls)
     \<and> total_clients (analyze_torfs_output it1 ls) = total_clients (analyze_torfs_output it2 ls)
     \<and> compromised_clients (analyze_torfs_output it1 ls)
         = compromised_clients (analyze_torfs_output it2 ls)
     \<and> client_exposures (analyze_torfs_output it1 ls)
         = client_exposures (analyze_torfs_output it2 ls)
     \<and> epoch_data (analyze_torfs_output it1 ls) = epoch_data (analyze_torfs_output it2 ls)
     \<and> distinct (map fst (client_counts (analyze_torfs_output it1 ls)))
     \<and> distinct (map fst (client_counts (analyze_torfs_output it2 ls)))
     \<and> set (client_counts (analyze_torfs_output it1 ls))
         = set (client_counts (analyze_torfs_output it2 ls))
     \<and> generate_report (analyze_torfs_output it1 ls) = generate_report (analyze_torfs_output it2 ls)
     \<and> (it1 = it2 \<longrightarrow> analyze_torfs_output it1 ls = analyze_torfs_output it2 ls)"
proof -
  let ?r1 = "analyze_torfs_output it1 ls" and ?r2 = "analyze_torfs_output it2 ls"
  have f: "total_circuits ?r1 = total_circuits ?r2"
    "compromised_circuits ?r1 = compromised_circuits ?r2"
    "circuit_counts ?r1 = circuit_counts ?r2"
    "total_clients ?r1 = total_clients ?r2"
    "compromised_clients ?r1 = compromised_clients ?r2"
    "client_exposures ?r1 = client_exposures ?r2"
    "epoch_data ?r1 = epoch_data ?r2"
    by (simp_all add: analyze_torfs_output_def make_results_def)
  have d: "distinct (map fst (client_counts ?r1))" "distinct (map fst (client_counts ?r2))"
    by (simp_all add: results_fields distinct_count_clients)
  have m: "map_of (client_counts ?r1) = map_of (client_counts ?r2)"
    using assms by (simp add: results_fields map_of_count_clients)
  with d have s: "set (client_counts ?r1) = set (client_counts ?r2)"
    by (simp add: map_of_inject_set)
  have "circuit_section ?r1 = circuit_section ?r2"
    unfolding circuit_section_def f by (rule refl)
  moreover have "client_section ?r1 = client_section ?r2"
    unfolding client_section_def f breakdown_cong [OF m] by (rule refl)
  moreover have "relay_section ?r1 = relay_section ?r2"
    unfolding relay_section_def f by (rule refl)
  ultimately have g: "generate_report ?r1 = generate_report ?r2"
    by (simp add: generate_report_def)
  from f d s g show ?thesis by blast
qed

theorem analysis_deterministic_witness:
  "valid_iter iter_listed \<and> valid_iter iter_reversed
   \<and> client_counts (analyze_torfs_output iter_listed [line_g1, line_mx2])
       = [((True, False, False), 1), ((False, True, True), 1)]
   \<and> client_counts (analyze_torfs_output iter_reversed [line_g1, line_mx2])
       = [((False, True, True), 1), ((True, False, False), 1)]
   \<and> set (client_counts (analyze_torfs_output iter_listed [line_g1, line_mx2]))
       = set (client_counts (analyze_torfs_output iter_reversed [line_g1, line_mx2]))
   \<and> generate_report (analyze_torfs_output iter_listed [line_g1, line_mx2])
       = generate_report (analyze_torfs_output iter_reversed [line_g1, line_mx2])"
proof -
  have e: "exposures (scan [line_g1, line_mx2])
            = [(3, {(False, True, True), (True, False, False)})]"
    by (simp add: line_g1_def line_mx2_def eval_defs)
  have a: "client_counts (analyze_torfs_output iter_listed [line_g1, line_mx2])
       = [((True, False, False), 1), ((False, True, True), 1)]"
    by (simp add: results_fields e count_clients_def iter_listed_def all_combinations_def
        dd_incr_def dd_int_def)
  have b: "client_counts (analyze_torfs_output iter_reversed [line_g1, line_mx2])
       = [((False, True, True), 1), ((True, False, False), 1)]"
    by (simp add: results_fields e count_clients_def iter_reversed_def iter_listed_def
        all_combinations_def dd_incr_def dd_int_def)
  from a b valid_iter_listed valid_iter_reversed show ?thesis
    using analysis_deterministic [OF valid_iter_listed valid_iter_reversed,
        of "[line_g1, line_mx2]"]
    by (simp only: simp_thms)
qed

section \<open>Snapshots of epochs without counts\<close>

text \<open>
  C9, as the code has it: the running snapshot is never reset. The snapshot stored for an
  epoch whose span (the lines after its marker, up to the next marker or the end) holds no
  relay-count and no adversary-count line is the running snapshot as it stood at the
  marker: the snapshot stored for the previous epoch if there is one, and for the first
  epoch whatever the lines before the first marker left, which is the all-zero snapshot
  when no count line precedes the marker.
\<close>

theorem snapshot_carried_over:
  assumes "is_epoch m"
    and "\<forall>l\<in>set mid. \<not> is_epoch l \<and> \<not> count_line l"
    and "case post of [] \<Rightarrow> True | m' # rest \<Rightarrow> is_epoch m'"
  shows "length (filter is_epoch pre)
           < length (epoch_data (analyze_torfs_output iter (pre @ m # mid @ post)))
     \<and> epoch_data (analyze_torfs_output iter (pre @ m # mid @ post))
           ! length (filter is_epoch pre) = relay_stats (scan pre)
     \<and> (filter is_epoch pre \<noteq> [] \<longrightarrow>
          epoch_data (analyze_torfs_output iter (pre @ m # mid @ post))
            ! length (filter is_epoch pre)
          = epoch_data (analyze_torfs_output iter (pre @ m # mid @ post))
            ! (length (filter is_epoch pre) - 1))
     \<and> (filter is_epoch pre = [] \<and> (\<forall>l\<in>set pre. \<not> count_line l) \<longrightarrow>
          epoch_data (analyze_torfs_output iter (pre @ m # mid @ post)) ! 0 = zero_snapshot)"
proof -
  let ?k = "length (filter is_epoch pre)"
  let ?e = "epoch_data (analyze_torfs_output iter (pre @ m # mid @ post))"
  obtain ys where e: "?e = final_epochs (scan pre) @ relay_stats (scan pre) # ys"
    using epoch_data_split [OF assms] by blast
  have k: "length (final_epochs (scan pre)) = ?k" by (rule length_final_epochs_scan)
  have a: "?k < length ?e" by (simp add: e k)
  have b: "?e ! ?k = relay_stats (scan pre)"
    unfolding e using k by (metis nth_append_length)
  have c: "?e ! ?k = ?e ! (?k - 1)" if "filter is_epoch pre \<noteq> []"
  proof -
    from that have "truthy (current_epoch (scan pre))" by (simp add: truthy_scan)
    then have f: "final_epochs (scan pre) = epochs (scan pre) @ [relay_stats (scan pre)]"
      by (rule final_epochs_open)
    with k have "length (epochs (scan pre)) = ?k - 1" by simp
    then have "(epochs (scan pre) @ relay_stats (scan pre) # relay_stats (scan pre) # ys)
                 ! (?k - 1) = relay_stats (scan pre)"
      by (metis nth_append_length)
    then have "?e ! (?k - 1) = relay_stats (scan pre)" by (simp add: e f)
    with b show ?thesis by simp
  qed
  have d: "?e ! 0 = zero_snapshot"
    if "filter is_epoch pre = []" "\<forall>l\<in>set pre. \<not> count_line l"
  proof -
    have "relay_stats (scan pre) = relay_stats init_state"
      unfolding scan_def using that(2) by (rule relay_stats_kept_foldl)
    with b that(1) show ?thesis by (simp add: init_state_def zero_snapshot_def)
  qed
  from a b c d show ?thesis by blast
qed

theorem snapshot_carried_over_witness:
  "is_epoch line_epoch_b
   \<and> \<not> is_epoch line_g1 \<and> \<not> count_line line_g1
   \<and> filter is_epoch [line_epoch_a, line_relays, line_adv] \<noteq> []
   \<and> epoch_data (analyze_torfs_output iter_listed
        ([line_epoch_a, line_relays, line_adv] @ line_epoch_b # [line_g1] @ [])) ! 1
      = \<lparr> total_relays = 100, total_guards = 20, total_exits = 10,
          adv_guards = 2, adv_exits = 1 \<rparr>
   \<and> epoch_data (analyze_torfs_output iter_listed
        ([line_epoch_a, line_relays, line_adv] @ line_epoch_b # [line_g1] @ [])) ! 0
      = \<lparr> total_relays = 100, total_guards = 20, total_exits = 10,
          adv_guards = 2, adv_exits = 1 \<rparr>
   \<and> epoch_data (analyze_torfs_output iter_listed
        ([] @ line_epoch_a # [line_g1] @ [line_epoch_b, line_relays])) ! 0 = zero_snapshot"
proof -
  have h: "\<forall>l\<in>set [line_g1]. \<not> is_epoch l \<and> \<not> count_line l"
    by (simp add: sample_kinds)
  have f: "filter is_epoch [line_epoch_a, line_relays, line_adv] = [line_epoch_a]"
    by (simp add: sample_kinds)
  have p: "case [line_epoch_b, line_relays] of [] \<Rightarrow> True | m' # rest \<Rightarrow> is_epoch m'"
    by (simp add: sample_kinds)
  have q: "case ([] :: string list) of [] \<Rightarrow> True | m' # rest \<Rightarrow> is_epoch m'"
    by simp
  from snapshot_carried_over [OF sample_kinds(2) h q, of "[line_epoch_a, line_relays, line_adv]"
      iter_listed]
  have one: "epoch_data (analyze_torfs_output iter_listed
        ([line_epoch_a, line_relays, line_adv] @ line_epoch_b # [line_g1] @ [])) ! 1
      = \<lparr> total_relays = 100, total_guards = 20, total_exits = 10,
          adv_guards = 2, adv_exits = 1 \<rparr>
    \<and> epoch_data (analyze_torfs_output iter_listed
        ([line_epoch_a, line_relays, line_adv] @ line_epoch_b # [line_g1] @ [])) ! 0
      = \<lparr> total_relays = 100, total_guards = 20, total_exits = 10,
          adv_guards = 2, adv_exits = 1 \<rparr>"
    by (auto simp: sample_kinds scan_counts_sample)
  from snapshot_carried_over [OF sample_kinds(1) h p, of "[]" iter_listed]
  have "epoch_data (analyze_torfs_output iter_listed
        ([] @ line_epoch_a # [line_g1] @ [line_epoch_b, line_relays])) ! 0 = zero_snapshot"
    by auto
  moreover have "filter is_epoch [line_epoch_a, line_relays, line_adv] \<noteq> []"
    by (simp only: f) simp
  ultimately show ?thesis using one sample_kinds(2,5,8) by (simp only: simp_thms)
qed

theorem first_epoch_snapshot_counterexample:
  "is_epoch line_epoch_a \<and> \<not> is_epoch line_relays
   \<and> epoch_data (analyze_torfs_output iter_listed [line_relays, line_epoch_a])
      = [\<lparr> total_relays = 100, total_guards = 20, total_exits = 10,
            adv_guards = 0, adv_exits = 0 \<rparr>]
   \<and> epoch_data (analyze_torfs_output iter_listed [line_relays, line_epoch_a]) ! 0
      \<noteq> zero_snapshot"
  by (simp add: zero_snapshot_def line_epoch_a_def line_relays_def eval_defs)

section \<open>Compromised clients among all clients\<close>

text \<open>
  C10: the number of compromised clients never exceeds \<open>total_clients\<close>; both are \<open>0\<close> when
  no use is compromised and first seen; and where the renderer's division by
  \<open>total_clients\<close> succeeds, the quotient is at most one.
\<close>

theorem compromised_clients_le_total_clients:
  "compromised_clients (analyze_torfs_output iter ls) \<le> total_clients (analyze_torfs_output iter ls)
   \<and> (first_seen_compromised ls = [] \<longrightarrow>
        compromised_clients (analyze_torfs_output iter ls) = 0
        \<and> total_clients (analyze_torfs_output iter ls) = 0)
   \<and> (total_clients (analyze_torfs_output iter ls) \<noteq> 0 \<longrightarrow>
        (\<exists>q. truediv (of_int (compromised_clients (analyze_torfs_output iter ls)))
                      (of_int (total_clients (analyze_torfs_output iter ls))) = Inr q
             \<and> 0 \<le> q \<and> q \<le> 1))"
proof -
  let ?r = "analyze_torfs_output iter ls"
  have le: "compromised_clients ?r \<le> total_clients ?r" by (rule compromised_le_total)
  have z: "first_seen_compromised ls = [] \<Longrightarrow> compromised_clients ?r = 0 \<and> total_clients ?r = 0"
    by (simp add: results_fields exposures_empty_iff)
  have nn: "0 \<le> compromised_clients ?r" by (simp add: results_fields)
  have "total_clients ?r \<noteq> 0 \<Longrightarrow>
        (\<exists>q. truediv (of_int (compromised_clients ?r)) (of_int (total_clients ?r)) = Inr q
             \<and> 0 \<le> q \<and> q \<le> 1)"
  proof -
    assume "total_clients ?r \<noteq> 0"
    with le nn have pos: "0 < total_clients ?r" by linarith
    then have "(of_int (compromised_clients ?r) :: rat) / of_int (total_clients ?r) \<le> 1"
      using le by (simp add: divide_le_eq_1)
    moreover have "0 \<le> (of_int (compromised_clients ?r) :: rat) / of_int (total_clients ?r)"
      using nn pos by simp
    ultimately show ?thesis using pos by (simp add: truediv_def)
  qed
  with le z show ?thesis by blast
qed

theorem compromised_clients_le_total_clients_witness:
  "first_seen_compromised [line_clean9] = []
   \<and> compromised_clients (analyze_torfs_output iter_listed [line_clean9]) = 0
   \<and> total_clients (analyze_torfs_output iter_listed [line_clean9]) = 0
   \<and> total_clients (analyze_torfs_output iter_listed [line_g1]) \<noteq> 0
   \<and> (\<exists>q. truediv (of_int (compromised_clients (analyze_torfs_output iter_listed [line_g1])))
                   (of_int (total_clients (analyze_torfs_output iter_listed [line_g1]))) = Inr q
           \<and> 0 \<le> q \<and> q \<le> 1)"
proof -
  have a: "first_seen_compromised [line_clean9] = []"
    by (simp add: first_seen_compromised_def circuit_uses_def uses_of_line_clean9
        first_seen_def comp_of_samples)
  have b: "total_clients (analyze_torfs_output iter_listed [line_g1]) \<noteq> 0"
    by (simp add: results_fields scan_line_g1 init_state_def py_max_def)
  from a b show ?thesis
    using compromised_clients_le_total_clients [of iter_listed "[line_clean9]"]
      compromised_clients_le_total_clients [of iter_listed "[line_g1]"]
    by (simp only: simp_thms)
qed

end
